theory Spec2Isabelle
  imports Complex_Main "HOL-Library.Sublist"
begin

section \<open>Text helpers\<close>

text \<open>
  Texts are lists of bytes (\<^typ>\<open>string\<close>): a JavaScript string is held as its UTF-8
  encoding, and a response body as the bytes it is, which need not be UTF-8.  The
  numeric pattern of the extractor only mentions ASCII characters, and no byte of a
  multi-byte UTF-8 sequence is ASCII, so scanning the bytes finds the same matches as
  scanning the code units of the JavaScript string.
\<close>

definition digit_cls :: string where
  "digit_cls = ''0123456789''"

definition digit_char :: "nat \<Rightarrow> char" where
  "digit_char n = char_of (48 + n)"

function show_nat :: "nat \<Rightarrow> string" where
  "show_nat n = (if n < 10 then [digit_char n] else show_nat (n div 10) @ [digit_char (n mod 10)])"
  by pat_completeness auto
termination
  by (relation "measure id") auto

declare show_nat.simps [simp del]

text \<open>\<open>String.prototype.includes\<close>: does the needle occur as a contiguous part.\<close>

fun str_includes :: "string \<Rightarrow> string \<Rightarrow> bool" where
  "str_includes [] needle = (needle = [])"
| "str_includes (c # cs) needle = (prefix needle (c # cs) \<or> str_includes cs needle)"

text \<open>\<open>String.prototype.toLowerCase\<close> on the ASCII letters of a header name.\<close>

definition lower_char :: "char \<Rightarrow> char" where
  "lower_char c =
     (let n = (of_char c :: nat) in if 65 \<le> n \<and> n \<le> 90 then char_of (n + 32) else c)"

definition toLowerCase :: "string \<Rightarrow> string" where
  "toLowerCase s = map lower_char s"

text \<open>
  A JavaScript value used as a condition: \<open>undefined\<close> (an absent query parameter) and
  the empty string are falsy, every other string is truthy.
\<close>

fun falsy :: "string option \<Rightarrow> bool" where
  "falsy None = True"
| "falsy (Some s) = (s = [])"

text \<open>
  The white space that \<open>parseFloat\<close> skips in front of a number: tab,
  line feed, vertical tab, form feed, carriage return, space, U+00A0, U+1680, U+2000 to
  U+200A, U+2028, U+2029, U+202F, U+205F, U+3000 and U+FEFF, each in its UTF-8 form.
\<close>

definition white_space :: "string list" where
  "white_space =
     [ [CHR 0x09], [CHR 0x0A], [CHR 0x0B], [CHR 0x0C], [CHR 0x0D], [CHR 0x20],
      [CHR 0xC2, CHR 0xA0], [CHR 0xE1, CHR 0x9A, CHR 0x80],
      [CHR 0xE2, CHR 0x80, CHR 0x80], [CHR 0xE2, CHR 0x80, CHR 0x81],
      [CHR 0xE2, CHR 0x80, CHR 0x82], [CHR 0xE2, CHR 0x80, CHR 0x83],
      [CHR 0xE2, CHR 0x80, CHR 0x84], [CHR 0xE2, CHR 0x80, CHR 0x85],
      [CHR 0xE2, CHR 0x80, CHR 0x86], [CHR 0xE2, CHR 0x80, CHR 0x87],
      [CHR 0xE2, CHR 0x80, CHR 0x88], [CHR 0xE2, CHR 0x80, CHR 0x89],
      [CHR 0xE2, CHR 0x80, CHR 0x8A], [CHR 0xE2, CHR 0x80, CHR 0xA8],
      [CHR 0xE2, CHR 0x80, CHR 0xA9], [CHR 0xE2, CHR 0x80, CHR 0xAF],
      [CHR 0xE2, CHR 0x81, CHR 0x9F], [CHR 0xE3, CHR 0x80, CHR 0x80],
      [CHR 0xEF, CHR 0xBB, CHR 0xBF] ]"

lemma white_space_nonempty: "p \<in> set white_space \<Longrightarrow> p \<noteq> []"
  by (auto simp: white_space_def)

function skip_space :: "string \<Rightarrow> string" where
  "skip_space s =
     (case find (\<lambda>p. prefix p s) white_space of
        None \<Rightarrow> s
      | Some p \<Rightarrow> skip_space (drop (length p) s))"
  by pat_completeness auto
termination
proof (relation "measure length")
  fix s p
  assume "find (\<lambda>p. prefix p s) white_space = Some p"
  then have "p \<in> set white_space" and "prefix p s"
    by (auto simp: find_Some_iff)
  then have "p \<noteq> []" and "length p \<le> length s"
    by (auto dest: white_space_nonempty prefix_length_le)
  then show "(drop (length p) s, s) \<in> measure length"
    by (cases p) auto
qed simp

declare skip_space.simps [simp del]

section \<open>Sample Extractor (\<open>parseTextToNumbers\<close>, server.js)\<close>

text \<open>
  The pattern \<^verbatim>\<open>/[-+]?\d*\.?\d+(?:[eE][-+]?\d+)?/g\<close> is built from character classes, the
  greedy quantifiers \<open>?\<close>, \<open>*\<close> and \<open>+\<close> (the last two on a class only) and
  concatenation.  \<open>rx_match\<close> is the backtracking matcher: it returns, in the order in
  which the engine tries them, the inputs left over after each way of matching at the
  start of the text.  The engine takes the first.
\<close>

datatype rx = Cls string | StarCls string | PlusCls string | Seq rx rx | Opt rx

fun rx_match :: "rx \<Rightarrow> string \<Rightarrow> string list" where
  "rx_match (Cls cs) [] = []"
| "rx_match (Cls cs) (c # r) = (if c \<in> set cs then [r] else [])"
| "rx_match (StarCls cs) [] = [[]]"
| "rx_match (StarCls cs) (c # r) =
     (if c \<in> set cs then rx_match (StarCls cs) r @ [c # r] else [c # r])"
| "rx_match (PlusCls cs) [] = []"
| "rx_match (PlusCls cs) (c # r) = (if c \<in> set cs then rx_match (StarCls cs) r else [])"
| "rx_match (Seq a b) s = concat (map (rx_match b) (rx_match a s))"
| "rx_match (Opt a) s = rx_match a s @ [s]"

definition exp_re :: rx where
  "exp_re = Seq (Cls ''eE'') (Seq (Opt (Cls ''-+'')) (PlusCls digit_cls))"

definition tail_re :: rx where
  "tail_re = Seq (PlusCls digit_cls) (Opt exp_re)"

definition mant_re :: rx where
  "mant_re = Seq (StarCls digit_cls) (Seq (Opt (Cls ''.'')) tail_re)"

definition sample_re :: rx where
  "sample_re = Seq (Opt (Cls ''-+'')) mant_re"

text \<open>
  \<open>re.exec\<close> with the global flag, on the text from \<open>lastIndex\<close> on: the first start
  position with a match, the matched text and the text after it (the new \<open>lastIndex\<close>).
\<close>

fun re_exec :: "rx \<Rightarrow> string \<Rightarrow> (string \<times> string) option" where
  "re_exec re [] = (case rx_match re [] of [] \<Rightarrow> None | r # _ \<Rightarrow> Some ([], r))"
| "re_exec re (c # cs) =
     (case rx_match re (c # cs) of
        [] \<Rightarrow> re_exec re cs
      | r # _ \<Rightarrow> Some (take (length (c # cs) - length r) (c # cs), r))"

lemma rx_match_suffix: "r \<in> set (rx_match re s) \<Longrightarrow> suffix r s"
proof (induction re s arbitrary: r rule: rx_match.induct)
  case (7 a b s)
  then obtain m where m: "m \<in> set (rx_match a s)" and r: "r \<in> set (rx_match b m)"
    by auto
  from "7.IH"(1) [OF m] "7.IH"(2) [OF m r] show ?case
    by (rule suffix_order.trans [rotated])
qed (auto split: if_splits simp: suffix_Cons)

lemma rx_match_PlusCls_shorter:
  "r \<in> set (rx_match (PlusCls cs) s) \<Longrightarrow> length r < length s"
  by (cases s) (auto split: if_splits dest!: rx_match_suffix suffix_length_le)

lemma rx_match_tail_shorter:
  assumes "r \<in> set (rx_match tail_re s)"
  shows "length r < length s"
proof -
  from assms obtain m where m: "m \<in> set (rx_match (PlusCls digit_cls) s)"
    and r: "r \<in> set (rx_match (Opt exp_re) m)"
    by (auto simp: tail_re_def)
  from r have "length r \<le> length m"
    by (auto dest!: rx_match_suffix suffix_length_le)
  with rx_match_PlusCls_shorter [OF m] show ?thesis by simp
qed

lemma rx_match_sample_shorter:
  assumes "r \<in> set (rx_match sample_re s)"
  shows "length r < length s"
proof -
  from assms obtain m1 m2 m3 where m1: "m1 \<in> set (rx_match (Opt (Cls ''-+'')) s)"
    and m2: "m2 \<in> set (rx_match (StarCls digit_cls) m1)"
    and m3: "m3 \<in> set (rx_match (Opt (Cls ''.'')) m2)"
    and r: "r \<in> set (rx_match tail_re m3)"
    by (auto simp: sample_re_def mant_re_def)
  from m1 m2 m3 have "length m3 \<le> length s"
    by (auto dest!: rx_match_suffix suffix_length_le)
  with rx_match_tail_shorter [OF r] show ?thesis by simp
qed

lemma re_exec_sample_shorter:
  "re_exec sample_re s = Some (m, r) \<Longrightarrow> length r < length s"
proof (induction s)
  case Nil
  then obtain rs where "rx_match sample_re [] = r # rs"
    by (auto split: list.splits)
  then have "r \<in> set (rx_match sample_re [])" by simp
  from rx_match_sample_shorter [OF this] show ?case by simp
next
  case (Cons c cs)
  show ?case
  proof (cases "rx_match sample_re (c # cs)")
    case Nil
    with Cons show ?thesis by auto
  next
    case hd: (Cons r' rs)
    then have "r' \<in> set (rx_match sample_re (c # cs))" by simp
    from rx_match_sample_shorter [OF this] hd Cons.prems show ?thesis by auto
  qed
qed

text \<open>
  The loop \<^verbatim>\<open>while ((m = re.exec(text)) !== null) out.push(parseFloat(m[0]))\<close>, with
  \<open>parseFloat\<close> a parameter.  Each match of the pattern is non-empty, so \<open>lastIndex\<close>
  grows and the loop ends.
\<close>

function parseTextToNumbers :: "(string \<Rightarrow> 'n) \<Rightarrow> string \<Rightarrow> 'n list" where
  "parseTextToNumbers pf text =
     (case re_exec sample_re text of
        None \<Rightarrow> []
      | Some (m, rest) \<Rightarrow> pf m # parseTextToNumbers pf rest)"
  by pat_completeness auto
termination
  by (relation "measure (\<lambda>(pf, text). length text)") (auto dest: re_exec_sample_shorter)

declare parseTextToNumbers.simps [simp del]

section \<open>Base64 (\<open>Buffer.from(txt).toString('base64')\<close>)\<close>

text \<open>
  The standard alphabet with \<open>=\<close> padding, three bytes to four characters, as Node's
  \<open>Buffer\<close> encodes; \<open>base64_decode\<close> is the inverse a client applies to the field.
\<close>

definition b64_alphabet :: string where
  "b64_alphabet = ''ABCDEFGHIJKLMNOPQRSTUVWXYZabcdefghijklmnopqrstuvwxyz0123456789+/''"

definition b64_char :: "nat \<Rightarrow> char" where
  "b64_char n = b64_alphabet ! n"

definition b64_value :: "char \<Rightarrow> nat option" where
  "b64_value c = map_of (zip b64_alphabet [0..<64]) c"

fun base64 :: "string \<Rightarrow> string" where
  "base64 [] = []"
| "base64 [a] =
     (let x = (of_char a :: nat)
      in [b64_char (x div 4), b64_char ((x mod 4) * 16), CHR ''='', CHR ''=''])"
| "base64 [a, b] =
     (let x = (of_char a :: nat); y = (of_char b :: nat)
      in [b64_char (x div 4), b64_char ((x mod 4) * 16 + y div 16),
          b64_char ((y mod 16) * 4), CHR ''=''])"
| "base64 (a # b # c # rest) =
     (let x = (of_char a :: nat); y = (of_char b :: nat); z = (of_char c :: nat)
      in [b64_char (x div 4), b64_char ((x mod 4) * 16 + y div 16),
          b64_char ((y mod 16) * 4 + z div 64), b64_char (z mod 64)] @ base64 rest)"

fun base64_decode :: "string \<Rightarrow> string option" where
  "base64_decode [] = Some []"
| "base64_decode (w # x # y # z # rest) =
     (case (b64_value w, b64_value x) of
        (Some p, Some q) \<Rightarrow>
          if y = CHR ''='' \<and> z = CHR ''='' \<and> rest = [] then Some [char_of (p * 4 + q div 16)]
          else (case b64_value y of
            None \<Rightarrow> None
          | Some r \<Rightarrow>
              if z = CHR ''='' \<and> rest = []
              then Some [char_of (p * 4 + q div 16), char_of ((q mod 16) * 16 + r div 4)]
              else (case (b64_value z, base64_decode rest) of
                (Some t, Some more) \<Rightarrow>
                  Some (char_of (p * 4 + q div 16) # char_of ((q mod 16) * 16 + r div 4)
                        # char_of ((r mod 4) * 64 + t) # more)
              | _ \<Rightarrow> None))
      | _ \<Rightarrow> None)"
| "base64_decode _ = None"

section \<open>Poll Synthesizer (\<open>/sse\<close> of server.js)\<close>

subsection \<open>The platform\<close>

text \<open>
  JSON values, with the number type a parameter: the synthesizer moves numbers around and
  prints them, it never computes with them.  \<open>JSON.parse\<close>, \<open>JSON.stringify\<close>,
  \<open>parseFloat\<close> and the text of the engine's \<open>TypeError\<close> for a property read on
  \<open>null\<close> belong to the JavaScript engine and are parameters of the model.  A thrown
  exception is the left injection, holding the exception's \<open>message\<close>.
\<close>

datatype 'n json =
    JNull
  | JBool bool
  | JNum 'n
  | JStr string
  | JArr "'n json list"
  | JObj "(string \<times> 'n json) list"

record 'n platform =
  JSON_parse :: "string \<Rightarrow> string + 'n json"
  JSON_stringify :: "'n json \<Rightarrow> string"
  parseFloat :: "string \<Rightarrow> 'n"
  null_read_message :: string

text \<open>
  What one \<open>fetch(remote, {timeout: 5000})\<close> gives: a rejection (left), or a response
  with its status, its \<open>content-type\<close> header if any, and the bytes of its body, or the
  rejection of reading them.
\<close>

record poll_response =
  up_status :: nat
  up_content_type :: "string option"
  up_body :: "string + string"

definition resp_ok :: "poll_response \<Rightarrow> bool" where
  "resp_ok r = (200 \<le> up_status r \<and> up_status r < 300)"

text \<open>
  A text is held as its UTF-8 bytes, so \<open>Buffer.from(txt)\<close> is the text as it stands.
  The bytes of a body are something else: \<open>r.text()\<close> of node-fetch 2 is
  \<open>buffer.toString()\<close>, which decodes them as UTF-8, puts U+FFFD for every ill-formed
  part and keeps a byte order mark.  The decoder reads
  byte by byte: outside a sequence a byte is an ASCII character, the lead byte of a
  sequence of two, three or four bytes, or an error; inside a sequence the next byte
  must lie between the bounds the lead byte has set, otherwise the sequence is an error
  and the byte is read again outside it.  An input that ends inside a sequence is an
  error too.
\<close>

definition bytes_needed :: "nat \<Rightarrow> nat" where
  "bytes_needed b =
     (if 0xC2 \<le> b \<and> b \<le> 0xDF then 1
      else if 0xE0 \<le> b \<and> b \<le> 0xEF then 2
      else if 0xF0 \<le> b \<and> b \<le> 0xF4 then 3
      else 0)"

definition lead_bits :: "nat \<Rightarrow> nat" where
  "lead_bits b =
     (if bytes_needed b = 1 then b mod 32 else if bytes_needed b = 2 then b mod 16 else b mod 8)"

definition lower_boundary :: "nat \<Rightarrow> nat" where
  "lower_boundary b = (if b = 0xE0 then 0xA0 else if b = 0xF0 then 0x90 else 0x80)"

definition upper_boundary :: "nat \<Rightarrow> nat" where
  "upper_boundary b = (if b = 0xED then 0x9F else if b = 0xF4 then 0x8F else 0xBF)"

fun utf8_run :: "nat \<Rightarrow> nat \<Rightarrow> nat \<Rightarrow> nat \<Rightarrow> nat list \<Rightarrow> nat list" where
  "utf8_run needed cp lo hi [] = (if needed = 0 then [] else [0xFFFD])"
| "utf8_run 0 cp lo hi (b # bs) =
     (if b < 0x80 then b # utf8_run 0 0 0x80 0xBF bs
      else if bytes_needed b = 0 then 0xFFFD # utf8_run 0 0 0x80 0xBF bs
      else utf8_run (bytes_needed b) (lead_bits b) (lower_boundary b) (upper_boundary b) bs)"
| "utf8_run (Suc k) cp lo hi (b # bs) =
     (if b < lo \<or> hi < b then 0xFFFD # utf8_run 0 0 0x80 0xBF (b # bs)
      else if k = 0 then (cp * 64 + b mod 64) # utf8_run 0 0 0x80 0xBF bs
      else utf8_run k (cp * 64 + b mod 64) 0x80 0xBF bs)"

definition utf8_decode :: "nat list \<Rightarrow> nat list" where
  "utf8_decode bs = utf8_run 0 0 0x80 0xBF bs"

text \<open>The UTF-8 bytes of a code point.\<close>

definition encode_cp :: "nat \<Rightarrow> nat list" where
  "encode_cp cp =
     (if cp < 0x80 then [cp]
      else if cp < 0x800 then [0xC0 + cp div 64, 0x80 + cp mod 64]
      else if cp < 0x10000 then [0xE0 + cp div 4096, 0x80 + cp div 64 mod 64, 0x80 + cp mod 64]
      else [0xF0 + cp div 262144, 0x80 + cp div 4096 mod 64, 0x80 + cp div 64 mod 64,
            0x80 + cp mod 64])"

text \<open>The text \<open>buffer.toString()\<close> makes of the bytes of a body.\<close>

definition utf8_text :: "string \<Rightarrow> string" where
  "utf8_text body = map char_of (concat (map encode_cp (utf8_decode (map of_char body))))"

subsection \<open>The client response\<close>

record res =
  statusCode :: nat
  res_headers :: "(string \<times> string) list"
  written :: "string list"
  writableEnded :: bool
  end_calls :: nat

definition new_res :: res where
  "new_res = \<lparr>statusCode = 200, res_headers = [], written = [], writableEnded = False,
     end_calls = 0\<rparr>"

text \<open>\<open>res.setHeader\<close> replaces a header of the same name, compared without case.\<close>

definition setHeader :: "string \<Rightarrow> string \<Rightarrow> res \<Rightarrow> res" where
  "setHeader k v r =
     r\<lparr>res_headers :=
         filter (\<lambda>(k', _). toLowerCase k' \<noteq> toLowerCase k) (res_headers r) @ [(k, v)]\<rparr>"

definition res_status :: "nat \<Rightarrow> res \<Rightarrow> res" where
  "res_status n r = r\<lparr>statusCode := n\<rparr>"

text \<open>\<open>res.write\<close>: a chunk goes out unless the response has been ended.\<close>

definition res_write :: "string \<Rightarrow> res \<Rightarrow> res" where
  "res_write chunk r = (if writableEnded r then r else r\<lparr>written := written r @ [chunk]\<rparr>)"

definition res_end :: "res \<Rightarrow> res" where
  "res_end r = r\<lparr>writableEnded := True, end_calls := Suc (end_calls r)\<rparr>"

text \<open>\<open>res.send(body)\<close>: write the body and end the response.\<close>

definition res_send :: "string \<Rightarrow> res \<Rightarrow> res" where
  "res_send body r = res_end (res_write body r)"

definition res_writeHead :: "nat \<Rightarrow> (string \<times> string) list \<Rightarrow> res \<Rightarrow> res" where
  "res_writeHead n hs r = fold (\<lambda>(k, v). setHeader k v) hs (res_status n r)"

subsection \<open>One iteration of the poll loop\<close>

text \<open>
  The template literals of the loop end in \<^verbatim>\<open>\\n\\n\<close>: in a template literal \<^verbatim>\<open>\\\<close> is an
  escaped backslash, so each frame ends with the four characters backslash, \<open>n\<close>,
  backslash, \<open>n\<close>.
\<close>

definition frame_end :: string where
  "frame_end = [CHR 0x5C, CHR ''n'', CHR 0x5C, CHR ''n'']"

definition data_frame :: "string \<Rightarrow> string" where
  "data_frame payload = ''data: '' @ payload @ frame_end"

definition extracted_frame :: "'n platform \<Rightarrow> string \<Rightarrow> string" where
  "extracted_frame P text =
     data_frame (JSON_stringify P (JArr (map JNum (parseTextToNumbers (parseFloat P) text))))"

text \<open>
  The branch for a JSON body, after \<open>r.json()\<close> gave \<open>j\<close>.  Reading \<open>j.samples\<close> throws
  when \<open>j\<close> is \<open>null\<close>; of an object it is the value of the last member of that name; of
  a boolean, number or string it is \<open>undefined\<close>.
\<close>

fun json_frame :: "'n platform \<Rightarrow> 'n json \<Rightarrow> string + string" where
  "json_frame P (JArr xs) = Inr (data_frame (JSON_stringify P (JArr xs)))"
| "json_frame P JNull = Inl (null_read_message P)"
| "json_frame P (JObj kvs) =
     (case map_of (rev kvs) ''samples'' of
        Some (JArr xs) \<Rightarrow> Inr (data_frame (JSON_stringify P (JArr xs)))
      | _ \<Rightarrow> Inr (extracted_frame P (JSON_stringify P (JObj kvs))))"
| "json_frame P j = Inr (extracted_frame P (JSON_stringify P j))"

text \<open>
  The body of the \<open>try\<close>: the chunk it writes (right), or the exception (left).
  \<open>r.json()\<close> is \<open>JSON.parse\<close> of the decoded body, \<open>r.text()\<close> the decoded body.
\<close>

definition poll_try :: "'n platform \<Rightarrow> string + poll_response \<Rightarrow> string + string" where
  \<open>poll_try P fetched =
     (case fetched of
        Inl msg \<Rightarrow> Inl msg
      | Inr r \<Rightarrow>
          if \<not> resp_ok r then Inr ('': remote status '' @ show_nat (up_status r) @ frame_end)
          else
            let ct = (case up_content_type r of None \<Rightarrow> [] | Some c \<Rightarrow> c)
            in if str_includes ct ''application/json''
               then (case up_body r of
                       Inl msg \<Rightarrow> Inl msg
                     | Inr body \<Rightarrow>
                         (case JSON_parse P (utf8_text body) of
                            Inl msg \<Rightarrow> Inl msg
                          | Inr j \<Rightarrow> json_frame P j))
               else (case up_body r of
                       Inl msg \<Rightarrow> Inl msg
                     | Inr body \<Rightarrow>
                         let txt = utf8_text body;
                             nums = parseTextToNumbers (parseFloat P) txt
                         in if nums = []
                            then Inr (''data: {"b64": "'' @ base64 txt @ ''"}'' @ frame_end)
                            else Inr (data_frame (JSON_stringify P (JArr (map JNum nums))))))\<close>

text \<open>The \<open>try\<close> with its \<open>catch\<close>: the one chunk an iteration writes.\<close>

definition pollIter :: "'n platform \<Rightarrow> string + poll_response \<Rightarrow> string" where
  "pollIter P fetched =
     (case poll_try P fetched of
        Inl msg \<Rightarrow> '': poll error '' @ msg @ frame_end
      | Inr chunk \<Rightarrow> chunk)"

subsection \<open>The interval parameter\<close>

text \<open>
  The numbers \<open>parseInt\<close> can give: \<open>NaN\<close>, an integer (every finite value of
  \<open>parseInt\<close> is one; both zeros are \<open>Fin 0\<close>), or an infinity, for a text with too many
  digits for a double.  \<open>parseInt\<close> itself belongs to the engine and is a parameter of the
  model, from the text of its argument to such a number.
\<close>

datatype number = NaN | NegInf | Fin int | PosInf

type_synonym int_parser = "string \<Rightarrow> number"

text \<open>
  \<^verbatim>\<open>let interval = parseInt(req.query.interval) || 200\<close>: an absent parameter is
  \<open>undefined\<close>, whose text for \<open>parseInt\<close> is \<open>undefined\<close>; \<open>NaN\<close> and zero are falsy.
\<close>

definition interval_of :: "int_parser \<Rightarrow> string option \<Rightarrow> number" where
  "interval_of parseInt q =
     (let n = parseInt (case q of None \<Rightarrow> ''undefined'' | Some s \<Rightarrow> s)
      in if n = NaN \<or> n = Fin 0 then Fin 200 else n)"

text \<open>\<open>elapsed < interval\<close>, for a number of milliseconds elapsed.\<close>

fun below :: "int \<Rightarrow> number \<Rightarrow> bool" where
  "below elapsed NaN = False"
| "below elapsed NegInf = False"
| "below elapsed (Fin n) = (elapsed < n)"
| "below elapsed PosInf = True"

subsection \<open>The request handler\<close>

text \<open>
  \<open>new URL(remote)\<close> belongs to the platform: a URL parser is a parameter, giving the
  host name of the parsed URL, or \<open>None\<close> where the constructor throws.
\<close>

type_synonym url_parser = "string \<Rightarrow> string option"

text \<open>The \<open>cors()\<close> middleware in front of every route.\<close>

definition cors :: "res \<Rightarrow> res" where
  "cors r = setHeader ''Access-Control-Allow-Origin'' ''*'' r"

record poll_start =
  ps_res :: res
  ps_loop :: "(string \<times> number) option"

definition sse_poll ::
  "int_parser \<Rightarrow> url_parser \<Rightarrow> string option \<Rightarrow> string option \<Rightarrow> poll_start" where
  "sse_poll parseInt parseURL url_q interval_q =
     (let res0 = cors new_res
      in case (if falsy url_q then None else url_q) of
           None \<Rightarrow>
             \<lparr>ps_res = res_send ''Missing url parameter. Example: /sse?url=https://example.com/data''
                         (res_status 400 res0),
              ps_loop = None\<rparr>
         | Some remote \<Rightarrow>
             let interval = interval_of parseInt interval_q
             in case parseURL remote of
                  None \<Rightarrow>
                    \<lparr>ps_res = res_send ''Invalid url parameter'' (res_status 400 res0),
                     ps_loop = None\<rparr>
                | Some _ \<Rightarrow>
                    \<lparr>ps_res = res_writeHead 200
                        [(''Content-Type'', ''text/event-stream''),
                         (''Cache-Control'', ''no-cache''),
                         (''Connection'', ''keep-alive''),
                         (''Access-Control-Allow-Origin'', ''*'')] res0,
                     ps_loop = Some (remote, interval)\<rparr>)"

subsection \<open>The poll loop\<close>

text \<open>
  The loop runs against a clock in milliseconds.  The environment says from which time on
  the flag \<open>stopped\<close> reads true (the client's \<open>close\<close> event), how long the \<open>k\<close>-th fetch
  takes and what it gives, and by how much a 50 ms timer is late.
\<close>

record poll_env =
  stopped_from :: "int option"
  fetch_result :: "nat \<Rightarrow> nat \<times> (string + poll_response)"
  timer_delay :: nat

record poll_state =
  p_res :: res
  p_fetches :: "string list"
  p_now :: int
  p_timer_waits :: nat

definition stopped :: "poll_env \<Rightarrow> int \<Rightarrow> bool" where
  "stopped E now = (case stopped_from E of None \<Rightarrow> False | Some t \<Rightarrow> t \<le> now)"

text \<open>
  \<^verbatim>\<open>while (!stopped && Date.now() - start < interval) await new Promise(r => setTimeout(r, 50))\<close>
  With an infinite interval and a client that stays, this loop does not end: the result
  is \<open>None\<close>.
\<close>

partial_function (option) sleep ::
  "poll_env \<Rightarrow> number \<Rightarrow> int \<Rightarrow> poll_state \<Rightarrow> poll_state option" where
  "sleep E interval start st =
     (if \<not> stopped E (p_now st) \<and> below (p_now st - start) interval
      then sleep E interval start
             (st\<lparr>p_now := p_now st + 50 + int (timer_delay E),
                 p_timer_waits := Suc (p_timer_waits st)\<rparr>)
      else Some st)"

text \<open>
  \<open>pollLoop\<close>, at most \<open>fuel\<close> tests of the loop condition: an iteration fetches, writes
  its one chunk and sleeps; when \<open>stopped\<close> is seen the response is ended.  With the fuel
  used up the loop is still running and the response not ended; so it is when the loop
  stays in a sleep that does not end.
\<close>

fun pollLoop ::
  "'n platform \<Rightarrow> poll_env \<Rightarrow> string \<Rightarrow> number \<Rightarrow> nat \<Rightarrow> nat \<Rightarrow> poll_state \<Rightarrow> poll_state" where
  "pollLoop P E remote interval 0 i st = st"
| "pollLoop P E remote interval (Suc fuel) i st =
     (if stopped E (p_now st) then st\<lparr>p_res := res_end (p_res st)\<rparr>
      else
        let (duration, fetched) = fetch_result E i;
            st1 = st\<lparr>p_fetches := p_fetches st @ [remote], p_now := p_now st + int duration\<rparr>;
            st2 = st1\<lparr>p_res := res_write (pollIter P fetched) (p_res st1)\<rparr>
        in case sleep E interval (p_now st2) st2 of
             None \<Rightarrow> st2
           | Some st3 \<Rightarrow> pollLoop P E remote interval fuel (Suc i) st3)"

text \<open>A whole \<open>/sse\<close> request, from the handler into the loop, the clock starting at 0.\<close>

definition sse_poll_run ::
  "'n platform \<Rightarrow> int_parser \<Rightarrow> url_parser \<Rightarrow> poll_env \<Rightarrow> string option \<Rightarrow> string option \<Rightarrow> nat
     \<Rightarrow> poll_state"
  where
  "sse_poll_run P parseInt parseURL E url_q interval_q fuel =
     (let s = sse_poll parseInt parseURL url_q interval_q;
          st0 = \<lparr>p_res = ps_res s, p_fetches = [], p_now = 0, p_timer_waits = 0\<rparr>
      in case ps_loop s of
           None \<Rightarrow> st0
         | Some (remote, interval) \<Rightarrow> pollLoop P E remote interval fuel 0 st0)"

section \<open>Relay (\<open>/proxy\<close> and \<open>/sse\<close> of the development proxy)\<close>

subsection \<open>Host Policy\<close>

text \<open>
  \<open>isHostAllowed\<close>, with the allowlist \<open>ALLOWED_HOSTS\<close> (an array, possibly empty) and
  the URL parser as parameters.
\<close>

definition isHostAllowed :: "string list \<Rightarrow> url_parser \<Rightarrow> string \<Rightarrow> bool" where
  "isHostAllowed allowed parseURL targetUrl =
     (if allowed = [] then True
      else case parseURL targetUrl of
             Some hostname \<Rightarrow> hostname \<in> set allowed
           | None \<Rightarrow> False)"

subsection \<open>The handlers\<close>

text \<open>
  What the relay's \<open>fetch\<close> gives: a rejection (left, the text of the error), or a
  response with status, headers and a body.  A body is the sequence of results its reader
  will deliver, chunks and possibly a read error; after the last the reader reports
  \<open>done\<close>.
\<close>

datatype source_item = Chunk string | ReadError string

record remote_response =
  r_status :: nat
  r_headers :: "(string \<times> string) list"
  r_body :: "source_item list option"

record relay_env =
  ALLOWED_HOSTS :: "string list"
  new_URL :: url_parser
  fetch :: "string \<Rightarrow> string + remote_response"

record relay_result =
  rr_res :: res
  rr_fetches :: "string list"
  rr_reader :: "source_item list option"

definition remote_ok :: "remote_response \<Rightarrow> bool" where
  "remote_ok r = (200 \<le> r_status r \<and> r_status r < 300)"

text \<open>\<open>remote.text()\<close>: the whole body, or the read error met on the way.\<close>

fun source_text :: "source_item list \<Rightarrow> string + string" where
  "source_text [] = Inr []"
| "source_text (ReadError msg # _) = Inl msg"
| "source_text (Chunk v # rest) =
     (case source_text rest of Inl msg \<Rightarrow> Inl msg | Inr t \<Rightarrow> Inr (v @ t))"

definition remote_text :: "remote_response \<Rightarrow> string + string" where
  "remote_text r = (case r_body r of None \<Rightarrow> Inr [] | Some src \<Rightarrow> source_text src)"

text \<open>The middleware in front of every route of the relay.\<close>

definition relay_cors :: "res \<Rightarrow> res" where
  "relay_cors r =
     setHeader ''Access-Control-Allow-Headers'' ''Origin, X-Requested-With, Content-Type, Accept''
       (setHeader ''Access-Control-Allow-Origin'' ''*'' r)"

definition hopByHop :: "string list" where
  "hopByHop = [''connection'', ''keep-alive'', ''proxy-authenticate'', ''proxy-authorization'',
     ''te'', ''trailers'', ''transfer-encoding'', ''upgrade'']"

text \<open>
  \<^verbatim>\<open>remote.headers.forEach((v, k) => { if (!hopByHop.has(k.toLowerCase())) res.setHeader(k, v) })\<close>
\<close>

definition forward_headers :: "(string \<times> string) list \<Rightarrow> res \<Rightarrow> res" where
  "forward_headers hs r =
     fold (\<lambda>(k, v) r. if toLowerCase k \<in> set hopByHop then r else setHeader k v r) hs r"

definition bad_gateway :: "string \<Rightarrow> string list \<Rightarrow> res \<Rightarrow> relay_result" where
  "bad_gateway err fetches r =
     \<lparr>rr_res = res_send (''bad gateway: '' @ err) (res_status 502 r),
      rr_fetches = fetches, rr_reader = None\<rparr>"

text \<open>
  \<open>app.get('/proxy')\<close> up to the start of the pump: the response so far, the URLs
  handed to \<open>fetch\<close>, and the reader the pump was started on, if it was.
\<close>

definition proxy :: "relay_env \<Rightarrow> string option \<Rightarrow> relay_result" where
  "proxy env url_q =
     (let res0 = relay_cors new_res
      in case (if falsy url_q then None else url_q) of
           None \<Rightarrow>
             \<lparr>rr_res = res_send ''missing url query param'' (res_status 400 res0),
              rr_fetches = [], rr_reader = None\<rparr>
         | Some target \<Rightarrow>
             if \<not> isHostAllowed (ALLOWED_HOSTS env) (new_URL env) target
             then \<lparr>rr_res = res_send ''host not allowed'' (res_status 403 res0),
                   rr_fetches = [], rr_reader = None\<rparr>
             else (case fetch env target of
                     Inl err \<Rightarrow> bad_gateway err [target] res0
                   | Inr remote \<Rightarrow>
                       let res1 = res_status (r_status remote) res0;
                           res2 = forward_headers (r_headers remote) res1;
                           res3 = setHeader ''Access-Control-Allow-Origin'' ''*'' res2;
                           res4 = setHeader ''Cache-Control'' ''no-store'' res3
                       in case r_body remote of
                            None \<Rightarrow>
                              \<lparr>rr_res = res_send [] res4, rr_fetches = [target],
                               rr_reader = None\<rparr>
                          | Some src \<Rightarrow>
                              \<lparr>rr_res = res4, rr_fetches = [target], rr_reader = Some src\<rparr>))"

text \<open>\<open>app.get('/sse')\<close> of the relay, which forwards the chunks of one upstream stream.\<close>

definition sse_relay :: "relay_env \<Rightarrow> string option \<Rightarrow> relay_result" where
  "sse_relay env url_q =
     (let res0 = relay_cors new_res
      in case (if falsy url_q then None else url_q) of
           None \<Rightarrow>
             \<lparr>rr_res = res_send ''missing url query param'' (res_status 400 res0),
              rr_fetches = [], rr_reader = None\<rparr>
         | Some target \<Rightarrow>
             if \<not> isHostAllowed (ALLOWED_HOSTS env) (new_URL env) target
             then \<lparr>rr_res = res_send ''host not allowed'' (res_status 403 res0),
                   rr_fetches = [], rr_reader = None\<rparr>
             else (case fetch env target of
                     Inl err \<Rightarrow> bad_gateway err [target] res0
                   | Inr remote \<Rightarrow>
                       if \<not> remote_ok remote
                       then (let res1 = res_status (r_status remote) res0
                             in case remote_text remote of
                                  Inl err \<Rightarrow> bad_gateway err [target] res1
                                | Inr txt \<Rightarrow>
                                    \<lparr>rr_res = res_send txt
                                        (setHeader ''Access-Control-Allow-Origin'' ''*'' res1),
                                     rr_fetches = [target], rr_reader = None\<rparr>)
                       else
                         let res1 = setHeader ''Content-Type'' ''text/event-stream; charset=utf-8'' res0;
                             res2 = setHeader ''Cache-Control'' ''no-store'' res1;
                             res3 = setHeader ''Connection'' ''keep-alive'' res2;
                             res4 = setHeader ''Access-Control-Allow-Origin'' ''*'' res3
                         in case r_body remote of
                              None \<Rightarrow>
                                \<lparr>rr_res = res_end res4, rr_fetches = [target], rr_reader = None\<rparr>
                            | Some src \<Rightarrow>
                                \<lparr>rr_res = res4, rr_fetches = [target], rr_reader = Some src\<rparr>))"

subsection \<open>Stream Pump\<close>

text \<open>
  The pump and the \<open>close\<close> listener run as callbacks on one thread.  The state of a
  connection: the response, what the upstream will still deliver, whether the reader was
  cancelled and how often \<open>cancel\<close> was called, and whether the pump still waits on
  \<open>reader.read()\<close>.  Two things can happen: the pending read settles, or the client's
  \<open>close\<close> event fires.  A read on a cancelled reader settles with \<open>done\<close>.
\<close>

record pump_state =
  pm_res :: res
  pm_source :: "source_item list"
  pm_cancelled :: bool
  pm_cancel_calls :: nat
  pm_reading :: bool

datatype event = ReadSettles | ClientClose

definition pump_finally :: "pump_state \<Rightarrow> pump_state" where
  "pump_finally st = st\<lparr>pm_res := res_end (pm_res st), pm_reading := False\<rparr>"

fun pump_step :: "event \<Rightarrow> pump_state \<Rightarrow> pump_state" where
  "pump_step ClientClose st =
     st\<lparr>pm_cancelled := True, pm_cancel_calls := Suc (pm_cancel_calls st)\<rparr>"
| "pump_step ReadSettles st =
     (if \<not> pm_reading st then st
      else if pm_cancelled st then pump_finally st
      else case pm_source st of
             [] \<Rightarrow> pump_finally st
           | ReadError msg # rest \<Rightarrow> pump_finally (st\<lparr>pm_source := rest\<rparr>)
           | Chunk v # rest \<Rightarrow>
               if \<not> writableEnded (pm_res st)
               then st\<lparr>pm_res := res_write v (pm_res st), pm_source := rest\<rparr>
               else pump_finally (st\<lparr>pm_source := rest\<rparr>))"

definition pump_run :: "event list \<Rightarrow> pump_state \<Rightarrow> pump_state" where
  "pump_run evs st = fold pump_step evs st"

text \<open>The connection as a handler leaves it when it has started the pump.\<close>

definition pump_start :: "res \<Rightarrow> source_item list \<Rightarrow> pump_state" where
  "pump_start r src =
     \<lparr>pm_res = r, pm_source = src, pm_cancelled = False, pm_cancel_calls = 0,
      pm_reading = True\<rparr>"

section \<open>Example environments\<close>

text \<open>
  A URL parser for the examples: \<open>http://host/path\<close> with a plain lower-case host name
  parses to that host, everything else is refused.  On the URLs of the examples below it
  agrees with the platform's \<open>URL\<close> constructor, which refuses a text without a scheme.
\<close>

definition simple_url_parser :: url_parser where
  "simple_url_parser u =
     (if prefix ''http://'' u \<and> takeWhile (\<lambda>c. c \<noteq> CHR ''/'') (drop 7 u) \<noteq> []
      then Some (takeWhile (\<lambda>c. c \<noteq> CHR ''/'') (drop 7 u))
      else None)"

text \<open>A relay whose upstream is unreachable: every \<open>fetch\<close> rejects.\<close>

definition unreachable_env :: "string list \<Rightarrow> relay_env" where
  "unreachable_env allowed =
     \<lparr>ALLOWED_HOSTS = allowed, new_URL = simple_url_parser,
      fetch = (\<lambda>_. Inl ''TypeError: fetch failed'')\<rparr>"

text \<open>Reading a run of digits of a radix, for the examples.\<close>

definition digit_value :: "nat \<Rightarrow> char \<Rightarrow> nat option" where
  "digit_value radix c =
     (let n = (of_char c :: nat);
          v = (if 48 \<le> n \<and> n \<le> 57 then Some (n - 48)
               else if 97 \<le> n \<and> n \<le> 122 then Some (n - 87)
               else if 65 \<le> n \<and> n \<le> 90 then Some (n - 55)
               else None)
      in case v of None \<Rightarrow> None | Some d \<Rightarrow> if d < radix then Some d else None)"

fun parse_digits :: "nat \<Rightarrow> nat option \<Rightarrow> string \<Rightarrow> nat option" where
  "parse_digits radix acc [] = acc"
| "parse_digits radix acc (c # cs) =
     (case digit_value radix c of
        None \<Rightarrow> acc
      | Some d \<Rightarrow> parse_digits radix (Some ((case acc of None \<Rightarrow> 0 | Some a \<Rightarrow> a) * radix + d)) cs)"

text \<open>
  A stand-in for the engine's \<open>parseInt\<close> in the examples, which agrees with it on
  their texts: an optional minus sign and one to fifteen decimal digits, and nothing
  else, are read as that integer, which a double holds exactly; \<open>undefined\<close> and \<open>fast\<close>
  are not a number.  It gives \<open>NaN\<close> for every other text as well, where an engine
  may find a number (after white space or a plus sign, before other characters, with
  the prefix \<open>0x\<close>, with more digits); no such text occurs in the examples.
\<close>

definition small_parseInt :: int_parser where
  "small_parseInt s =
     (let negative = (s \<noteq> [] \<and> hd s = CHR ''-'');
          ds = (if negative then tl s else s)
      in if ds \<noteq> [] \<and> length ds \<le> 15 \<and> list_all (\<lambda>c. c \<in> set digit_cls) ds
         then (case parse_digits 10 None ds of
                 None \<Rightarrow> NaN
               | Some n \<Rightarrow> Fin (if negative then - int n else int n))
         else NaN)"

text \<open>
  A platform for the examples, with natural numbers as its numbers: \<open>JSON.parse\<close> knows
  the one text \<open>[1,2,3]\<close>, \<open>JSON.stringify\<close> prints an array of numbers, and
  \<open>parseFloat\<close> reads a run of digits.
\<close>

fun example_parse :: "string \<Rightarrow> string + nat json" where
  "example_parse s =
     (if s = ''[1,2,3]'' then Inr (JArr [JNum 1, JNum 2, JNum 3])
      else Inl ''Unexpected token in JSON'')"

fun example_items :: "nat json list \<Rightarrow> string" where
  "example_items [] = []"
| "example_items [JNum n] = show_nat n"
| "example_items (JNum n # x # xs) = show_nat n @ '','' @ example_items (x # xs)"
| "example_items (_ # xs) = ''null'' @ example_items xs"

fun example_stringify :: "nat json \<Rightarrow> string" where
  "example_stringify (JArr xs) = ''['' @ example_items xs @ '']''"
| "example_stringify _ = ''null''"

definition example_platform :: "nat platform" where
  "example_platform =
     \<lparr>JSON_parse = example_parse, JSON_stringify = example_stringify,
      parseFloat = (\<lambda>s. case parse_digits 10 None s of None \<Rightarrow> 0 | Some n \<Rightarrow> n),
      null_read_message = ''Cannot read properties of null''\<rparr>"

text \<open>
  An upstream that answers the JSON array on every even fetch and is unreachable on
  every odd one, each fetch taking 10 ms; the client never disconnects.
\<close>

definition array_response :: poll_response where
  "array_response =
     \<lparr>up_status = 200, up_content_type = Some ''application/json; charset=utf-8'',
      up_body = Inr ''[1,2,3]''\<rparr>"

definition flaky_env :: poll_env where
  "flaky_env =
     \<lparr>stopped_from = None,
      fetch_result = (\<lambda>k. (10, if even k then Inr array_response else Inl ''network timeout'')),
      timer_delay = 0\<rparr>"


text \<open>An upstream that answers with a hop-by-hop header among its headers.\<close>

definition keep_alive_env :: relay_env where
  "keep_alive_env =
     \<lparr>ALLOWED_HOSTS = [], new_URL = simple_url_parser,
      fetch = (\<lambda>_. Inr \<lparr>r_status = 200,
                 r_headers = [(''content-type'', ''text/plain''), (''Connection'', ''keep-alive''),
                              (''transfer-encoding'', ''chunked'')],
                 r_body = Some [Chunk ''ok'']\<rparr>)\<rparr>"

text \<open>An upstream that streams three chunks to a client allowed to reach it.\<close>

definition streaming_env :: relay_env where
  "streaming_env =
     \<lparr>ALLOWED_HOSTS = [''rs.local''], new_URL = simple_url_parser,
      fetch = (\<lambda>_. Inr \<lparr>r_status = 200, r_headers = [(''content-type'', ''text/event-stream'')],
                 r_body = Some [Chunk ''a'', Chunk ''b'', Chunk ''c'']\<rparr>)\<rparr>"

text \<open>A plain-text upstream whose body is the given bytes.\<close>

definition plain_response :: "string \<Rightarrow> poll_response" where
  "plain_response body =
     \<lparr>up_status = 200, up_content_type = Some ''text/plain'', up_body = Inr body\<rparr>"

section \<open>The scan for numeric literals, as specified\<close>

text \<open>
  The words a pattern matches, by its structure.  The matcher above says in which order
  the engine tries them; this says which they are.
\<close>

fun lang :: "rx \<Rightarrow> string set" where
  "lang (Cls cs) = {[c] | c. c \<in> set cs}"
| "lang (StarCls cs) = {w. set w \<subseteq> set cs}"
| "lang (PlusCls cs) = {w. w \<noteq> [] \<and> set w \<subseteq> set cs}"
| "lang (Seq a b) = {u @ v | u v. u \<in> lang a \<and> v \<in> lang b}"
| "lang (Opt a) = insert [] (lang a)"

text \<open>
  A numeric literal in the words of the specification: an optional sign, digits, an
  optional decimal point, at least one digit, and an optional exponent (the letter
  \<open>e\<close>, an optional sign, at least one digit).
\<close>

definition sign_part :: "string \<Rightarrow> bool" where
  "sign_part s = (s = [] \<or> s = ''-'' \<or> s = ''+'')"

definition exponent_part :: "string \<Rightarrow> bool" where
  "exponent_part ex =
     (ex = [] \<or> (\<exists>e sg ds. ex = e # sg @ ds \<and> (e = CHR ''e'' \<or> e = CHR ''E'') \<and> sign_part sg
                    \<and> ds \<noteq> [] \<and> set ds \<subseteq> set digit_cls))"

definition numeric_literal :: "string \<Rightarrow> bool" where
  "numeric_literal w =
     (\<exists>sg ip pt fp ex. w = sg @ ip @ pt @ fp @ ex \<and> sign_part sg \<and> set ip \<subseteq> set digit_cls
        \<and> (pt = [] \<or> pt = ''.'') \<and> fp \<noteq> [] \<and> set fp \<subseteq> set digit_cls \<and> exponent_part ex)"

text \<open>
  What it is for a list of tokens to be the left-to-right, maximal-match scan of a text.
  The scan is empty when no numeric literal occurs in the text.  Otherwise the text is a
  gap, the first token and a rest, where the token is a numeric literal, no longer
  literal starts where the token starts, no literal starts inside the gap, and the
  remaining tokens are the scan of the rest.
\<close>

inductive leftmost_longest :: "string \<Rightarrow> string list \<Rightarrow> bool" where
  no_literal:
    "(\<forall>pre w post. text = pre @ w @ post \<longrightarrow> \<not> numeric_literal w)
       \<Longrightarrow> leftmost_longest text []"
| next_literal:
    "text = gap @ tok @ rest
       \<Longrightarrow> numeric_literal tok
       \<Longrightarrow> (\<forall>w. numeric_literal w \<and> prefix w (tok @ rest) \<longrightarrow> length w \<le> length tok)
       \<Longrightarrow> (\<forall>g1 g2 w. gap = g1 @ g2 \<and> g2 \<noteq> [] \<and> numeric_literal w
              \<longrightarrow> \<not> prefix w (g2 @ tok @ rest))
       \<Longrightarrow> leftmost_longest rest toks
       \<Longrightarrow> leftmost_longest text (tok # toks)"

inductive_cases leftmost_longest_ConsE: "leftmost_longest text (tok # toks)"

text \<open>
  The number a text denotes for \<open>parseFloat\<close>: the longest prefix, after white space,
  that is a decimal literal (sign, digits, point, digits, exponent), read exactly;
  \<open>None\<close> is \<open>NaN\<close>.  JavaScript's \<open>parseFloat\<close> rounds this number to the nearest
  double, and also reads the word \<open>Infinity\<close>, which no match of the pattern contains.
\<close>

definition is_digit :: "char \<Rightarrow> bool" where
  "is_digit c = (c \<in> set digit_cls)"

definition digits_value :: "string \<Rightarrow> nat" where
  "digits_value ds = fold (\<lambda>c n. n * 10 + (of_char c - 48)) ds 0"

definition strip_sign :: "string \<Rightarrow> bool \<times> string" where
  "strip_sign s =
     (case s of
        [] \<Rightarrow> (False, [])
      | c # r \<Rightarrow> if c = CHR ''-'' then (True, r) else if c = CHR ''+'' then (False, r)
                 else (False, s))"

definition exponent_value :: "string \<Rightarrow> int" where
  "exponent_value s =
     (case s of
        [] \<Rightarrow> 0
      | c # r \<Rightarrow>
          if c = CHR ''e'' \<or> c = CHR ''E''
          then (let (neg, r1) = strip_sign r; ed = takeWhile is_digit r1
                in if ed = [] then 0
                   else if neg then - int (digits_value ed) else int (digits_value ed))
          else 0)"

definition parseFloat_exact :: "string \<Rightarrow> real option" where
  "parseFloat_exact s =
     (let (neg, s1) = strip_sign (skip_space s);
          ip = takeWhile is_digit s1;
          r1 = dropWhile is_digit s1;
          fp = (if r1 \<noteq> [] \<and> hd r1 = CHR ''.'' then takeWhile is_digit (tl r1) else []);
          r2 = (if r1 \<noteq> [] \<and> hd r1 = CHR ''.'' then dropWhile is_digit (tl r1) else r1)
      in if ip = [] \<and> fp = [] then None
         else
           let e = exponent_value r2;
               m = real (digits_value (ip @ fp)) / 10 ^ length fp;
               v = (if 0 \<le> e then m * 10 ^ nat e else m / 10 ^ nat (- e))
           in Some (if neg then - v else v))"

section \<open>Auxiliary notions of the proofs\<close>

text \<open>A list of left-over inputs whose first element is a shortest one.\<close>

definition hd_min :: "string list \<Rightarrow> bool" where
  "hd_min xs = (\<forall>x \<in> set xs. length (hd xs) \<le> length x)"

text \<open>What follows the first digit of the fraction: more digits, then the exponent.\<close>

definition more_digits_re :: rx where
  "more_digits_re = Seq (StarCls digit_cls) (Opt exp_re)"

text \<open>A response none of whose headers is hop-by-hop.\<close>

definition no_hop_by_hop :: "res \<Rightarrow> bool" where
  "no_hop_by_hop r = (\<forall>(k, v) \<in> set (res_headers r). toLowerCase k \<notin> set hopByHop)"

text \<open>While the pump reads nobody has ended the response; once it stops it has, once.\<close>

definition pump_inv :: "nat \<Rightarrow> pump_state \<Rightarrow> bool" where
  "pump_inv e0 st = (end_calls (pm_res st) = e0 + (if pm_reading st then 0 else 1))"



text \<open>
  Well-formed UTF-8, after the table of well-formed byte sequences of the Unicode
  Standard (Table 3-7): a byte below \<open>80\<close>; a lead byte \<open>C2..DF\<close> and one trailing byte;
  \<open>E0..EF\<close> and two; \<open>F0..F4\<close> and three.  A trailing byte lies in \<open>80..BF\<close>, but the
  first one after \<open>E0\<close> in \<open>A0..BF\<close>, after \<open>ED\<close> in \<open>80..9F\<close>, after \<open>F0\<close> in \<open>90..BF\<close>
  and after \<open>F4\<close> in \<open>80..8F\<close>.
\<close>

definition between :: "nat \<Rightarrow> nat \<Rightarrow> nat \<Rightarrow> bool" where
  "between lo hi b = (lo \<le> b \<and> b \<le> hi)"

fun well_formed_utf8 :: "nat list \<Rightarrow> bool" where
  "well_formed_utf8 [] = True"
| "well_formed_utf8 (a # bs) =
     (if a < 0x80 then well_formed_utf8 bs
      else if between 0xC2 0xDF a then
        (case bs of
           b # r \<Rightarrow> between 0x80 0xBF b \<and> well_formed_utf8 r
         | _ \<Rightarrow> False)
      else if between 0xE0 0xEF a then
        (case bs of
           b # c # r \<Rightarrow>
             between (if a = 0xE0 then 0xA0 else 0x80) (if a = 0xED then 0x9F else 0xBF) b
             \<and> between 0x80 0xBF c \<and> well_formed_utf8 r
         | _ \<Rightarrow> False)
      else if between 0xF0 0xF4 a then
        (case bs of
           b # c # d # r \<Rightarrow>
             between (if a = 0xF0 then 0x90 else 0x80) (if a = 0xF4 then 0x8F else 0xBF) b
             \<and> between 0x80 0xBF c \<and> between 0x80 0xBF d \<and> well_formed_utf8 r
         | _ \<Rightarrow> False)
      else False)"

text \<open>
  The code points a decoder may give: the Unicode scalar values.  And the states in
  which the decoder of a body can be while inside a sequence: with one, two or three
  bytes to come, what the code point read so far and the bounds for the next byte can be.
\<close>

definition scalar_value :: "nat \<Rightarrow> bool" where
  "scalar_value cp = (cp < 0xD800 \<or> 0xE000 \<le> cp \<and> cp < 0x110000)"

definition pending :: "nat \<Rightarrow> nat \<Rightarrow> nat \<Rightarrow> nat \<Rightarrow> bool" where
  "pending needed cp lo hi =
     (needed = 0
      \<or> 0x80 \<le> lo \<and> hi \<le> 0xBF
        \<and> (needed = 1 \<and> 2 \<le> cp \<and> cp < 0x4400 \<and> \<not> (0x360 \<le> cp \<and> cp < 0x380)
           \<or> needed = 2 \<and> cp < 0x110 \<and> (cp = 0 \<longrightarrow> 0xA0 \<le> lo) \<and> (cp = 13 \<longrightarrow> hi \<le> 0x9F)
           \<or> needed = 3 \<and> cp \<le> 4 \<and> (cp = 0 \<longrightarrow> 0x90 \<le> lo) \<and> (cp = 4 \<longrightarrow> hi \<le> 0x8F)))"

section \<open>Decoding a body and encoding the text again\<close>

text \<open>
  On a well-formed sequence the decoder gives the code point of the sequence, whose
  encoding is the sequence: a well-formed body comes back as it was.
\<close>

lemma utf8_run_1:
  "utf8_run 1 cp lo hi (b # bs) =
     (if b < lo \<or> hi < b then 0xFFFD # utf8_run 0 0 0x80 0xBF (b # bs)
      else (cp * 64 + b mod 64) # utf8_run 0 0 0x80 0xBF bs)"
  by simp

lemma utf8_run_2:
  "utf8_run 2 cp lo hi (b # bs) =
     (if b < lo \<or> hi < b then 0xFFFD # utf8_run 0 0 0x80 0xBF (b # bs)
      else utf8_run 1 (cp * 64 + b mod 64) 0x80 0xBF bs)"
  unfolding numeral_2_eq_2 by simp

lemma utf8_run_3:
  "utf8_run 3 cp lo hi (b # bs) =
     (if b < lo \<or> hi < b then 0xFFFD # utf8_run 0 0 0x80 0xBF (b # bs)
      else utf8_run 2 (cp * 64 + b mod 64) 0x80 0xBF bs)"
  unfolding numeral_3_eq_3 numeral_2_eq_2 by simp

lemma decode_ascii:
  "a < 0x80 \<Longrightarrow> utf8_decode (a # bs) = a # utf8_decode bs"
  by (simp add: utf8_decode_def)

lemma decode_two:
  assumes "between 0xC2 0xDF a" and "between 0x80 0xBF b"
  shows "utf8_decode (a # b # bs) = (a mod 32 * 64 + b mod 64) # utf8_decode bs"
  using assms
  by (simp add: utf8_decode_def between_def bytes_needed_def lead_bits_def lower_boundary_def
      upper_boundary_def)

lemma decode_three:
  assumes "between 0xE0 0xEF a"
    and "between (if a = 0xE0 then 0xA0 else 0x80) (if a = 0xED then 0x9F else 0xBF) b"
    and "between 0x80 0xBF c"
  shows "utf8_decode (a # b # c # bs) = ((a mod 16 * 64 + b mod 64) * 64 + c mod 64) # utf8_decode bs"
  using assms
  by (simp add: utf8_decode_def between_def bytes_needed_def lead_bits_def lower_boundary_def
      upper_boundary_def utf8_run_2 split: if_splits)

lemma decode_four:
  assumes "between 0xF0 0xF4 a"
    and "between (if a = 0xF0 then 0x90 else 0x80) (if a = 0xF4 then 0x8F else 0xBF) b"
    and "between 0x80 0xBF c" and "between 0x80 0xBF d"
  shows "utf8_decode (a # b # c # d # bs)
           = (((a mod 8 * 64 + b mod 64) * 64 + c mod 64) * 64 + d mod 64) # utf8_decode bs"
  using assms
  by (simp add: utf8_decode_def between_def bytes_needed_def lead_bits_def lower_boundary_def
      upper_boundary_def utf8_run_2 utf8_run_3 split: if_splits)


lemma mod_offset:
  fixes a :: nat
  assumes "q * m \<le> a" and "a < q * m + m"
  shows "a mod m = a - q * m"
proof -
  from assms(1) have "a = (a - q * m) + q * m" by simp
  then have "a mod m = ((a - q * m) + q * m) mod m" by simp
  also have "\<dots> = (a - q * m) mod m" by (simp only: mod_mult_self1)
  also have "\<dots> = a - q * m" using assms by simp
  finally show ?thesis .
qed

lemma byte_mod:
  fixes a :: nat
  shows "192 \<le> a \<Longrightarrow> a < 224 \<Longrightarrow> a mod 32 = a - 192"
    and "224 \<le> a \<Longrightarrow> a < 240 \<Longrightarrow> a mod 16 = a - 224"
    and "240 \<le> a \<Longrightarrow> a < 248 \<Longrightarrow> a mod 8 = a - 240"
    and "128 \<le> a \<Longrightarrow> a < 192 \<Longrightarrow> a mod 64 = a - 128"
  using mod_offset [of 6 32 a] mod_offset [of 14 16 a] mod_offset [of 30 8 a]
    mod_offset [of 2 64 a]
  by simp_all

lemma sextet_split:
  fixes x y :: nat
  assumes "y < 64"
  shows "(x * 64 + y) div 64 = x" and "(x * 64 + y) mod 64 = y"
    and "(x * 64 + y) div 4096 = x div 64" and "(x * 64 + y) div 262144 = x div 4096"
proof -
  show a: "(x * 64 + y) div 64 = x" and "(x * 64 + y) mod 64 = y"
    using assms by simp_all
  have "(x * 64 + y) div (64 * 64) = (x * 64 + y) div 64 div 64"
    by (rule div_mult2_eq)
  moreover have "(64::nat) * 64 = 4096" by simp
  ultimately show "(x * 64 + y) div 4096 = x div 64"
    by (simp only: a)
  have "(x * 64 + y) div (64 * 4096) = (x * 64 + y) div 64 div 4096"
    by (rule div_mult2_eq)
  moreover have "(64::nat) * 4096 = 262144" by simp
  ultimately show "(x * 64 + y) div 262144 = x div 4096"
    by (simp only: a)
qed

lemma encode_two:
  assumes "between 0xC2 0xDF a" and "between 0x80 0xBF b"
  shows "encode_cp (a mod 32 * 64 + b mod 64) = [a, b]"
proof -
  define x y where "x = a mod 32" and "y = b mod 64"
  define n where "n = x * 64 + y"
  from assms have a: "a = 192 + x" and x: "2 \<le> x" "x < 32"
    and b: "b = 128 + y" and y: "y < 64"
    by (auto simp: between_def x_def y_def byte_mod)
  have "128 \<le> n" "n < 2048"
    using x y by (simp_all add: n_def)
  moreover have "n div 64 = x" "n mod 64 = y"
    unfolding n_def by (simp_all only: sextet_split [OF y])
  ultimately have "encode_cp n = [a, b]"
    unfolding a b by (simp add: encode_cp_def)
  then show ?thesis
    by (simp only: n_def x_def y_def)
qed

lemma encode_three:
  assumes "between 0xE0 0xEF a"
    and "between (if a = 0xE0 then 0xA0 else 0x80) (if a = 0xED then 0x9F else 0xBF) b"
    and "between 0x80 0xBF c"
  shows "encode_cp ((a mod 16 * 64 + b mod 64) * 64 + c mod 64) = [a, b, c]"
proof -
  define x y z where "x = a mod 16" and "y = b mod 64" and "z = c mod 64"
  define n where "n = (x * 64 + y) * 64 + z"
  from assms have a: "a = 224 + x" and x: "x < 16"
    and b: "b = 128 + y" and y: "y < 64" and c: "c = 128 + z" and z: "z < 64"
    by (auto simp: between_def x_def y_def z_def byte_mod split: if_splits)
  from assms(2) have "x = 0 \<longrightarrow> 32 \<le> y"
    unfolding a b by (auto simp: between_def split: if_splits)
  then have "32 \<le> x * 64 + y"
    by (cases "x = 0") simp_all
  then have "2048 \<le> n"
    by (simp add: n_def)
  moreover have "x * 64 + y < 1024"
    using x y by simp
  then have "n < 65536"
    using z by (simp add: n_def)
  moreover have "n div 4096 = x" "n div 64 mod 64 = y" "n mod 64 = z"
    unfolding n_def by (simp_all only: sextet_split [OF z] sextet_split [OF y])
  ultimately have "encode_cp n = [a, b, c]"
    unfolding a b c by (simp add: encode_cp_def)
  then show ?thesis
    by (simp only: n_def x_def y_def z_def)
qed

lemma encode_four:
  assumes "between 0xF0 0xF4 a"
    and "between (if a = 0xF0 then 0x90 else 0x80) (if a = 0xF4 then 0x8F else 0xBF) b"
    and "between 0x80 0xBF c" and "between 0x80 0xBF d"
  shows "encode_cp (((a mod 8 * 64 + b mod 64) * 64 + c mod 64) * 64 + d mod 64) = [a, b, c, d]"
proof -
  define x y z w where "x = a mod 8" and "y = b mod 64" and "z = c mod 64" and "w = d mod 64"
  define n where "n = ((x * 64 + y) * 64 + z) * 64 + w"
  from assms have a: "a = 240 + x" and x: "x < 8"
    and b: "b = 128 + y" and y: "y < 64" and c: "c = 128 + z" and z: "z < 64"
    and d: "d = 128 + w" and w: "w < 64"
    by (auto simp: between_def x_def y_def z_def w_def byte_mod split: if_splits)
  from assms(2) have "x = 0 \<longrightarrow> 16 \<le> y"
    unfolding a b by (auto simp: between_def split: if_splits)
  then have "16 \<le> x * 64 + y"
    by (cases "x = 0") simp_all
  then have "1024 \<le> (x * 64 + y) * 64 + z"
    by simp
  then have "65536 \<le> n"
    by (simp add: n_def)
  moreover have "n div 262144 = x" "n div 4096 mod 64 = y" "n div 64 mod 64 = z" "n mod 64 = w"
    unfolding n_def
    by (simp_all only: sextet_split [OF w] sextet_split [OF z] sextet_split [OF y])
  ultimately have "encode_cp n = [a, b, c, d]"
    unfolding a b c d by (simp add: encode_cp_def)
  then show ?thesis
    by (simp only: n_def x_def y_def z_def w_def)
qed

lemma utf8_roundtrip:
  "well_formed_utf8 bs \<Longrightarrow> concat (map encode_cp (utf8_decode bs)) = bs"
proof (induction bs rule: well_formed_utf8.induct)
  case 1
  then show ?case by (simp add: utf8_decode_def)
next
  case (2 a bs)
  consider (one) "a < 0x80"
    | (two) "\<not> a < 0x80" "between 0xC2 0xDF a"
    | (three) "\<not> a < 0x80" "\<not> between 0xC2 0xDF a" "between 0xE0 0xEF a"
    | (four) "\<not> a < 0x80" "\<not> between 0xC2 0xDF a" "\<not> between 0xE0 0xEF a" "between 0xF0 0xF4 a"
    | (none) "\<not> a < 0x80" "\<not> between 0xC2 0xDF a" "\<not> between 0xE0 0xEF a" "\<not> between 0xF0 0xF4 a"
    by blast
  then show ?case
  proof cases
    case one
    with 2 show ?thesis
      by (simp add: decode_ascii encode_cp_def)
  next
    case two
    with "2.prems" have "case bs of [] \<Rightarrow> False
        | b # r \<Rightarrow> between 0x80 0xBF b \<and> well_formed_utf8 r"
      by simp
    then obtain b r where bs: "bs = b # r" and b: "between 0x80 0xBF b"
      and r: "well_formed_utf8 r"
      by (auto split: list.splits)
    from "2.IH"(2) [OF two bs] r have ih: "concat (map encode_cp (utf8_decode r)) = r"
      by simp
    show ?thesis
      unfolding bs
      by (simp only: decode_two [OF two(2) b] encode_two [OF two(2) b] ih list.map
          concat.simps append.simps)
  next
    case three
    with "2.prems" have "case bs of b # c # r \<Rightarrow>
          between (if a = 0xE0 then 0xA0 else 0x80) (if a = 0xED then 0x9F else 0xBF) b
          \<and> between 0x80 0xBF c \<and> well_formed_utf8 r
        | _ \<Rightarrow> False"
      by simp
    then obtain b c r where bs: "bs = b # c # r"
      and b: "between (if a = 0xE0 then 0xA0 else 0x80) (if a = 0xED then 0x9F else 0xBF) b"
      and c: "between 0x80 0xBF c" and r: "well_formed_utf8 r"
      by (auto split: list.splits)
    from "2.IH"(3) [OF three, of b "c # r" c r] bs r
    have ih: "concat (map encode_cp (utf8_decode r)) = r"
      by simp
    show ?thesis
      unfolding bs
      by (simp only: decode_three [OF three(3) b c] encode_three [OF three(3) b c] ih list.map
          concat.simps append.simps)
  next
    case four
    with "2.prems" have "case bs of b # c # d # r \<Rightarrow>
          between (if a = 0xF0 then 0x90 else 0x80) (if a = 0xF4 then 0x8F else 0xBF) b
          \<and> between 0x80 0xBF c \<and> between 0x80 0xBF d \<and> well_formed_utf8 r
        | _ \<Rightarrow> False"
      by simp
    then obtain b c d r where bs: "bs = b # c # d # r"
      and b: "between (if a = 0xF0 then 0x90 else 0x80) (if a = 0xF4 then 0x8F else 0xBF) b"
      and c: "between 0x80 0xBF c" and d: "between 0x80 0xBF d" and r: "well_formed_utf8 r"
      by (auto split: list.splits)
    from "2.IH"(4) [OF four, of b "c # d # r" c "d # r" d r] bs r
    have ih: "concat (map encode_cp (utf8_decode r)) = r"
      by simp
    show ?thesis
      unfolding bs
      by (simp only: decode_four [OF four(4) b c d] encode_four [OF four(4) b c d] ih list.map
          concat.simps append.simps)
  next
    case none
    with "2.prems" show ?thesis by simp
  qed
qed

lemma utf8_text_well_formed:
  assumes "well_formed_utf8 (map of_char body)"
  shows "utf8_text body = body"
proof -
  have "map char_of (map (of_char :: char \<Rightarrow> nat) body) = body"
    by (simp add: comp_def)
  with utf8_roundtrip [OF assms] show ?thesis
    by (simp only: utf8_text_def)
qed

lemma chars_of_bytes: "ns = map of_char cs \<Longrightarrow> map char_of (ns :: nat list) = cs"
  by (simp add: comp_def)

text \<open>
  Conversely the decoder gives scalar values only, whose encoding is well-formed: a body
  that is not well-formed does not come back.
\<close>

lemma pending_lead:
  assumes "b < 256" and "bytes_needed b \<noteq> 0"
  shows "pending (bytes_needed b) (lead_bits b) (lower_boundary b) (upper_boundary b)"
proof -
  consider (two) "0xC2 \<le> b" "b \<le> 0xDF" | (three) "0xE0 \<le> b" "b \<le> 0xEF"
    | (four) "0xF0 \<le> b" "b \<le> 0xF4"
    using assms(2) by (auto simp: bytes_needed_def split: if_splits)
  then show ?thesis
  proof cases
    case two
    then have "b mod 32 = b - 192" by (simp add: byte_mod)
    with two show ?thesis
      by (auto simp: pending_def bytes_needed_def lead_bits_def lower_boundary_def
          upper_boundary_def)
  next
    case three
    then have "b mod 16 = b - 224" by (simp add: byte_mod)
    with three show ?thesis
      by (auto simp: pending_def bytes_needed_def lead_bits_def lower_boundary_def
          upper_boundary_def)
  next
    case four
    then have "b mod 8 = b - 240" by (simp add: byte_mod)
    with four show ?thesis
      by (auto simp: pending_def bytes_needed_def lead_bits_def lower_boundary_def
          upper_boundary_def)
  qed
qed

lemma pending_1:
  assumes "pending 1 cp lo hi" and "lo \<le> b" and "b \<le> hi"
  shows "scalar_value (cp * 64 + b mod 64)"
proof -
  from assms have b: "128 \<le> b" "b < 192" and cp: "2 \<le> cp" "cp < 0x4400"
    and s: "\<not> (0x360 \<le> cp \<and> cp < 0x380)"
    by (auto simp: pending_def)
  have y: "b mod 64 < 64" by simp
  from cp have "cp * 64 + b mod 64 < 0x110000"
    using y by linarith
  moreover have "cp * 64 + b mod 64 < 0xD800" if "cp < 0x360"
    using that y by linarith
  moreover have "0xE000 \<le> cp * 64 + b mod 64" if "0x380 \<le> cp"
    using that by linarith
  ultimately show ?thesis
    using s unfolding scalar_value_def by (cases "cp < 0x360") auto
qed

lemma pending_2:
  assumes "pending 2 cp lo hi" and "lo \<le> b" and "b \<le> hi"
  shows "pending 1 (cp * 64 + b mod 64) 0x80 0xBF"
proof -
  from assms have b: "128 \<le> b" "b < 192" and cp: "cp < 0x110"
    and z: "cp = 0 \<longrightarrow> 0xA0 \<le> lo" and d: "cp = 13 \<longrightarrow> hi \<le> 0x9F"
    by (auto simp: pending_def)
  from b have m: "b mod 64 = b - 128" by (simp add: byte_mod)
  have "2 \<le> cp * 64 + (b - 128)"
    using z assms(2) b by (cases "cp = 0") auto
  moreover have "cp * 64 + (b - 128) < 0x4400"
    using cp b by linarith
  moreover have "\<not> (0x360 \<le> cp * 64 + (b - 128) \<and> cp * 64 + (b - 128) < 0x380)"
  proof (cases "cp = 13")
    case True
    with d assms(3) b show ?thesis by auto
  next
    case False
    then consider "cp \<le> 12" | "14 \<le> cp" by linarith
    then show ?thesis using b by cases auto
  qed
  ultimately have "pending 1 (cp * 64 + (b - 128)) 0x80 0xBF"
    by (simp add: pending_def)
  then show ?thesis
    by (simp only: m)
qed

lemma pending_3:
  assumes "pending 3 cp lo hi" and "lo \<le> b" and "b \<le> hi"
  shows "pending 2 (cp * 64 + b mod 64) 0x80 0xBF"
proof -
  from assms have b: "128 \<le> b" "b < 192" and cp: "cp \<le> 4"
    and z: "cp = 0 \<longrightarrow> 0x90 \<le> lo" and d: "cp = 4 \<longrightarrow> hi \<le> 0x8F"
    by (auto simp: pending_def)
  from b have m: "b mod 64 = b - 128" by (simp add: byte_mod)
  define n where "n = cp * 64 + (b - 128)"
  have "16 \<le> n"
    unfolding n_def using z assms(2) b by (cases "cp = 0") auto
  moreover have "n < 0x110"
  proof (cases "cp = 4")
    case True
    with d assms(3) b show ?thesis unfolding n_def by auto
  next
    case False
    with cp have "cp \<le> 3" by simp
    with b show ?thesis unfolding n_def by linarith
  qed
  ultimately have "pending 2 n 0x80 0xBF"
    by (auto simp: pending_def)
  then show ?thesis
    by (simp only: m n_def)
qed


lemma pending_0: "pending 0 cp lo hi"
  by (simp add: pending_def)

lemma pending_Suc:
  assumes "pending (Suc k) cp lo hi" and "lo \<le> b" and "b \<le> hi"
  shows "k = 0 \<longrightarrow> scalar_value (cp * 64 + b mod 64)"
    and "k \<noteq> 0 \<longrightarrow> pending k (cp * 64 + b mod 64) 0x80 0xBF"
proof -
  from assms(1) consider "k = 0" | "k = 1" | "k = 2"
    by (auto simp: pending_def)
  then have "(k = 0 \<longrightarrow> scalar_value (cp * 64 + b mod 64))
      \<and> (k \<noteq> 0 \<longrightarrow> pending k (cp * 64 + b mod 64) 0x80 0xBF)"
  proof cases
    case 1
    with assms pending_1 [of cp lo hi b] show ?thesis by simp
  next
    case 2
    with assms pending_2 [of cp lo hi b] show ?thesis
      by (simp add: numeral_2_eq_2)
  next
    case 3
    with assms pending_3 [of cp lo hi b] show ?thesis
      by (simp add: numeral_3_eq_3 numeral_2_eq_2)
  qed
  then show "k = 0 \<longrightarrow> scalar_value (cp * 64 + b mod 64)"
    and "k \<noteq> 0 \<longrightarrow> pending k (cp * 64 + b mod 64) 0x80 0xBF"
    by simp_all
qed

lemma scalar_replacement: "scalar_value 0xFFFD"
  by (simp add: scalar_value_def)

lemma utf8_run_scalar:
  assumes "\<forall>b \<in> set bs. b < 256" and "pending needed cp lo hi"
  shows "\<forall>c \<in> set (utf8_run needed cp lo hi bs). scalar_value c"
  using assms
proof (induction needed cp lo hi bs rule: utf8_run.induct)
  case (1 needed cp lo hi)
  then show ?case by (simp add: scalar_replacement)
next
  case (2 cp lo hi b bs)
  from "2.prems"(1) have b: "b < 256" and bs: "\<forall>b \<in> set bs. b < 256"
    by simp_all
  show ?case
  proof (cases "b < 0x80")
    case True
    then have "scalar_value b" by (simp add: scalar_value_def)
    with True "2.IH"(1) [OF True bs pending_0] show ?thesis by simp
  next
    case False
    show ?thesis
    proof (cases "bytes_needed b = 0")
      case True
      with False "2.IH"(2) [OF False True bs pending_0] show ?thesis
        by (simp add: scalar_replacement)
    next
      case n: False
      from "2.IH"(3) [OF False n bs pending_lead [OF b n]] False n show ?thesis
        by simp
    qed
  qed
next
  case (3 k cp lo hi b bs)
  from "3.prems"(1) have bs: "\<forall>b \<in> set bs. b < 256"
    by simp
  show ?case
  proof (cases "b < lo \<or> hi < b")
    case True
    with "3.IH"(1) [OF True "3.prems"(1) pending_0] show ?thesis
      by (simp add: scalar_replacement)
  next
    case False
    then have r: "lo \<le> b" "b \<le> hi" by simp_all
    note p = pending_Suc [OF "3.prems"(2) r]
    show ?thesis
    proof (cases "k = 0")
      case True
      with False p(1) "3.IH"(2) [OF False True bs pending_0] show ?thesis
        by simp
    next
      case k: False
      with p(2) have "pending k (cp * 64 + b mod 64) 0x80 0xBF" by simp
      from "3.IH"(3) [OF False k bs this] False k show ?thesis
        by simp
    qed
  qed
qed


lemma div_bounds:
  fixes c :: nat
  assumes "lo * m \<le> c" and "c < hi * m"
  shows "lo \<le> c div m" and "c div m < hi"
proof -
  from assms have m: "0 < m" by (cases "m = 0") auto
  from assms(1) m show "lo \<le> c div m"
    by (simp add: less_eq_div_iff_mult_less_eq)
  from assms(2) show "c div m < hi"
    by (rule less_mult_imp_div_less)
qed

lemma encode_well_formed:
  assumes "scalar_value c"
  shows "well_formed_utf8 (encode_cp c @ rest) = well_formed_utf8 rest"
proof -
  consider (one) "c < 0x80" | (two) "0x80 \<le> c" "c < 0x800"
    | (three) "0x800 \<le> c" "c < 0x10000" | (four) "0x10000 \<le> c"
    by linarith
  then show ?thesis
  proof cases
    case one
    then show ?thesis by (simp add: encode_cp_def)
  next
    case two
    define x y where "x = c div 64" and "y = c mod 64"
    from two div_bounds [of 2 64 c 32] have x: "2 \<le> x" "x < 32"
      by (simp_all add: x_def)
    have y: "y < 64" by (simp add: y_def)
    from two have "encode_cp c = [0xC0 + x, 0x80 + y]"
      by (simp add: encode_cp_def x_def y_def)
    with x y show ?thesis
      by (simp add: between_def)
  next
    case three
    define q where "q = c div 64"
    define x y z where "x = q div 64" and "y = q mod 64" and "z = c mod 64"
    from three div_bounds [of 32 64 c 1024] have q: "32 \<le> q" "q < 1024"
      by (simp_all add: q_def)
    from assms three have "c < 0xD800 \<or> 0xE000 \<le> c"
      by (simp add: scalar_value_def)
    with div_bounds(2) [of c 864 64] div_bounds(1) [of 896 64 c]
    have s: "q < 864 \<or> 896 \<le> q"
      by (auto simp: q_def)
    have qxy: "q = x * 64 + y" and y: "y < 64" and z: "z < 64"
      by (simp_all add: x_def y_def z_def)
    from q qxy y have x: "x < 16" by linarith
    have "c div 4096 = c div 64 div 64"
      using div_mult2_eq [of c 64 64] by simp
    with three have e: "encode_cp c = [0xE0 + x, 0x80 + y, 0x80 + z]"
      by (simp add: encode_cp_def x_def y_def z_def q_def)
    have lo: "x = 0 \<longrightarrow> 32 \<le> y"
      using q qxy by auto
    have hi: "x = 13 \<longrightarrow> y < 32"
      using s qxy y by auto
    from x y z lo hi show ?thesis
      unfolding e by (auto simp: between_def)
  next
    case four
    define q where "q = c div 4096"
    define x y z w where "x = q div 64" and "y = q mod 64" and "z = c div 64 mod 64"
      and "w = c mod 64"
    from assms four have c: "c < 0x110000"
      by (simp add: scalar_value_def)
    from four c div_bounds [of 16 4096 c 272] have q: "16 \<le> q" "q < 272"
      by (simp_all add: q_def)
    have qxy: "q = x * 64 + y" and y: "y < 64" and z: "z < 64" and w: "w < 64"
      by (simp_all add: x_def y_def z_def w_def)
    from q qxy y have x: "x \<le> 4" by linarith
    have "c div 262144 = c div 4096 div 64"
      using div_mult2_eq [of c 4096 64] by simp
    with four have e: "encode_cp c = [0xF0 + x, 0x80 + y, 0x80 + z, 0x80 + w]"
      by (simp add: encode_cp_def x_def y_def z_def w_def q_def)
    have lo: "x = 0 \<longrightarrow> 16 \<le> y"
      using q qxy by auto
    have hi: "x = 4 \<longrightarrow> y < 16"
      using q qxy by auto
    from x y z w lo hi show ?thesis
      unfolding e by (auto simp: between_def)
  qed
qed


lemma encoded_well_formed:
  "\<forall>c \<in> set cs. scalar_value c \<Longrightarrow> well_formed_utf8 (concat (map encode_cp cs))"
  by (induction cs) (simp_all add: encode_well_formed)

lemma well_formed_bytes: "well_formed_utf8 bs \<Longrightarrow> \<forall>b \<in> set bs. b < 256"
proof (induction bs rule: well_formed_utf8.induct)
  case 1
  then show ?case by simp
next
  case (2 a bs)
  consider (one) "a < 0x80"
    | (two) "\<not> a < 0x80" "between 0xC2 0xDF a"
    | (three) "\<not> a < 0x80" "\<not> between 0xC2 0xDF a" "between 0xE0 0xEF a"
    | (four) "\<not> a < 0x80" "\<not> between 0xC2 0xDF a" "\<not> between 0xE0 0xEF a" "between 0xF0 0xF4 a"
    | (none) "\<not> a < 0x80" "\<not> between 0xC2 0xDF a" "\<not> between 0xE0 0xEF a" "\<not> between 0xF0 0xF4 a"
    by blast
  then show ?case
  proof cases
    case one
    with "2.prems" have "well_formed_utf8 bs" by simp
    with "2.IH"(1) [OF one] one show ?thesis by simp
  next
    case two
    with "2.prems" have "case bs of [] \<Rightarrow> False
        | b # r \<Rightarrow> between 0x80 0xBF b \<and> well_formed_utf8 r"
      by simp
    then obtain b r where bs: "bs = b # r" and b: "between 0x80 0xBF b"
      and r: "well_formed_utf8 r"
      by (auto split: list.splits)
    from "2.IH"(2) [OF two bs] r have "\<forall>b \<in> set r. b < 256"
      by simp
    moreover from two b have "a < 256" "b < 256"
      by (simp_all add: between_def)
    ultimately show ?thesis
      unfolding bs by simp
  next
    case three
    with "2.prems" have "case bs of b # c # r \<Rightarrow>
          between (if a = 0xE0 then 0xA0 else 0x80) (if a = 0xED then 0x9F else 0xBF) b
          \<and> between 0x80 0xBF c \<and> well_formed_utf8 r
        | _ \<Rightarrow> False"
      by simp
    then obtain b c r where bs: "bs = b # c # r"
      and b: "between (if a = 0xE0 then 0xA0 else 0x80) (if a = 0xED then 0x9F else 0xBF) b"
      and c: "between 0x80 0xBF c" and r: "well_formed_utf8 r"
      by (auto split: list.splits)
    from "2.IH"(3) [OF three, of b "c # r" c r] bs r
    have "\<forall>b \<in> set r. b < 256"
      by simp
    moreover from three c have "a < 256" "c < 256"
      by (simp_all add: between_def)
    moreover from b have "b < 256"
      by (simp add: between_def split: if_splits)
    ultimately show ?thesis
      unfolding bs by simp
  next
    case four
    with "2.prems" have "case bs of b # c # d # r \<Rightarrow>
          between (if a = 0xF0 then 0x90 else 0x80) (if a = 0xF4 then 0x8F else 0xBF) b
          \<and> between 0x80 0xBF c \<and> between 0x80 0xBF d \<and> well_formed_utf8 r
        | _ \<Rightarrow> False"
      by simp
    then obtain b c d r where bs: "bs = b # c # d # r"
      and b: "between (if a = 0xF0 then 0x90 else 0x80) (if a = 0xF4 then 0x8F else 0xBF) b"
      and c: "between 0x80 0xBF c" and d: "between 0x80 0xBF d" and r: "well_formed_utf8 r"
      by (auto split: list.splits)
    from "2.IH"(4) [OF four, of b "c # d # r" c "d # r" d r] bs r
    have "\<forall>b \<in> set r. b < 256"
      by simp
    moreover from four c d have "a < 256" "c < 256" "d < 256"
      by (simp_all add: between_def)
    moreover from b have "b < 256"
      by (simp add: between_def split: if_splits)
    ultimately show ?thesis
      unfolding bs by simp
  next
    case none
    with "2.prems" show ?thesis by simp
  qed
qed

lemma utf8_text_fixed:
  assumes "utf8_text body = body"
  shows "well_formed_utf8 (map of_char body)"
proof -
  define out where "out = concat (map encode_cp (utf8_decode (map of_char body)))"
  have "\<forall>b \<in> set (map of_char body). (b :: nat) < 256"
    by simp
  then have "\<forall>c \<in> set (utf8_decode (map of_char body)). scalar_value c"
    unfolding utf8_decode_def by (rule utf8_run_scalar) (rule pending_0)
  then have wf: "well_formed_utf8 out"
    unfolding out_def by (rule encoded_well_formed)
  then have "\<forall>b \<in> set out. b < 256"
    by (rule well_formed_bytes)
  then have "map (of_char :: char \<Rightarrow> nat) (map char_of out) = out"
    by (simp add: map_idI)
  moreover from assms have "map char_of out = body"
    by (simp add: utf8_text_def out_def)
  ultimately show ?thesis
    using wf by simp
qed

section \<open>Properties of the Poll Synthesizer\<close>

lemma pollIter_frame_end: "\<exists>body. pollIter P fetched = body @ frame_end"
proof -
  have j: "\<And>j c. json_frame P j = Inr c \<Longrightarrow> \<exists>body. c = body @ frame_end"
    subgoal for j c
      by (cases "(P, j)" rule: json_frame.cases)
        (auto simp: data_frame_def extracted_frame_def split: option.splits json.splits)
    done
  show ?thesis
  proof (cases "poll_try P fetched")
    case (Inl msg)
    then show ?thesis by (simp add: pollIter_def)
  next
    case (Inr c)
    then have "\<exists>body. c = body @ frame_end"
      unfolding poll_try_def Let_def
      by (auto simp: data_frame_def dest: j split: sum.splits if_splits)
    with Inr show ?thesis by (simp add: pollIter_def)
  qed
qed

lemma pollIter_no_blank_line: "\<not> suffix [CHR 0x0A, CHR 0x0A] (pollIter P fetched)"
proof -
  obtain body where "pollIter P fetched = body @ frame_end"
    using pollIter_frame_end by blast
  then show ?thesis
    by (auto simp: suffix_def frame_end_def append_eq_append_conv2 append_eq_Cons_conv
        Cons_eq_append_conv)
qed

text \<open>
  C1 (every poll-mode frame ends with a blank line, two newline characters): the code
  writes its frames with \<^verbatim>\<open>\\n\\n\<close> in a template literal.  For an upstream answering 500
  the chunk written is \<open>: remote status 500\<close> followed by backslash, \<open>n\<close>, backslash,
  \<open>n\<close>; it does not end with two newline characters (and by \<open>pollIter_no_blank_line\<close>
  no chunk of the loop does).
\<close>

theorem pollIter_status_frame_not_terminated:
  "pollIter P (Inr \<lparr>up_status = 500, up_content_type = None, up_body = Inr []\<rparr>)
     = '': remote status 500'' @ [CHR 0x5C, CHR ''n'', CHR 0x5C, CHR ''n'']
   \<and> \<not> suffix [CHR 0x0A, CHR 0x0A]
         (pollIter P (Inr \<lparr>up_status = 500, up_content_type = None, up_body = Inr []\<rparr>))"
proof -
  have "show_nat 500 = ''500''"
    by code_simp
  then have "pollIter P (Inr \<lparr>up_status = 500, up_content_type = None, up_body = Inr []\<rparr>)
     = '': remote status 500'' @ [CHR 0x5C, CHR ''n'', CHR 0x5C, CHR ''n'']"
    by (simp add: pollIter_def poll_try_def resp_ok_def frame_end_def)
  then show ?thesis
    by (intro conjI pollIter_no_blank_line)
qed

subsection \<open>The sleep between iterations\<close>







subsection \<open>The loop, iteration by iteration\<close>







section \<open>Properties of the relay\<close>

lemma falsy_Some [simp]: "(if falsy (Some u) then None else Some u) = (if u = [] then None else Some u)"
  by simp

lemma res_headers_simps [simp]:
  "res_headers (res_status n r) = res_headers r"
  "res_headers (res_write c r) = res_headers r"
  "res_headers (res_end r) = res_headers r"
  "res_headers (res_send b r) = res_headers r"
  by (simp_all add: res_status_def res_write_def res_end_def res_send_def)

lemma statusCode_simps [simp]:
  "statusCode (res_status n r) = n"
  "statusCode (res_write c r) = statusCode r"
  "statusCode (res_end r) = statusCode r"
  "statusCode (res_send b r) = statusCode r"
  "statusCode (setHeader k v r) = statusCode r"
  by (simp_all add: res_status_def res_write_def res_end_def res_send_def setHeader_def)

text \<open>
  C5: the Host Policy allows a target exactly when the allowlist is empty or the target
  parses and its host name is in the list; an unparseable target is denied under a
  non-empty list; and for a denied target neither \<open>/proxy\<close> nor \<open>/sse\<close> of the relay
  calls \<open>fetch\<close>.
\<close>

theorem host_policy:
  "(isHostAllowed allowed parse target
      \<longleftrightarrow> allowed = [] \<or> (\<exists>h. parse target = Some h \<and> h \<in> set allowed))
   \<and> (parse target = None \<and> allowed \<noteq> [] \<longrightarrow> \<not> isHostAllowed allowed parse target)
   \<and> (\<not> isHostAllowed (ALLOWED_HOSTS env) (new_URL env) t
        \<longrightarrow> rr_fetches (proxy env (Some t)) = [] \<and> rr_fetches (sse_relay env (Some t)) = [])"
  by (auto simp: isHostAllowed_def proxy_def sse_relay_def Let_def split: option.splits)

theorem host_policy_witness:
  "isHostAllowed [] simple_url_parser ''nonsense''
   \<and> isHostAllowed [''rs.local''] simple_url_parser ''http://rs.local/sse''
   \<and> simple_url_parser ''nonsense'' = None
   \<and> \<not> isHostAllowed [''rs.local''] simple_url_parser ''nonsense''
   \<and> \<not> isHostAllowed [''rs.local''] simple_url_parser ''http://evil.example/data''
   \<and> rr_fetches (proxy (unreachable_env [''rs.local'']) (Some ''http://evil.example/data'')) = []
   \<and> rr_fetches (sse_relay (unreachable_env [''rs.local'']) (Some ''http://evil.example/data'')) = []"
proof -
  have n: "simple_url_parser ''nonsense'' = None"
    by (simp add: simple_url_parser_def)
  have r: "simple_url_parser ''http://rs.local/sse'' = Some ''rs.local''"
    by (simp add: simple_url_parser_def)
  have e: "simple_url_parser ''http://evil.example/data'' = Some ''evil.example''"
    by (simp add: simple_url_parser_def)
  show ?thesis
    using host_policy [of "[]" simple_url_parser "''nonsense''"
        "unreachable_env [''rs.local'']" "''http://evil.example/data''"]
      host_policy [of "[''rs.local'']" simple_url_parser "''http://rs.local/sse''"
        "unreachable_env [''rs.local'']" "''http://evil.example/data''"]
      host_policy [of "[''rs.local'']" simple_url_parser "''nonsense''"
        "unreachable_env [''rs.local'']" "''http://evil.example/data''"]
      host_policy [of "[''rs.local'']" simple_url_parser "''http://evil.example/data''"
        "unreachable_env [''rs.local'']" "''http://evil.example/data''"]
      n r e
    by (simp add: unreachable_env_def)
qed

lemma no_hop_setHeader:
  "no_hop_by_hop r \<Longrightarrow> toLowerCase k \<notin> set hopByHop \<Longrightarrow> no_hop_by_hop (setHeader k v r)"
  by (auto simp: no_hop_by_hop_def setHeader_def)

lemma no_hop_forward: "no_hop_by_hop r \<Longrightarrow> no_hop_by_hop (forward_headers hs r)"
  unfolding forward_headers_def
  by (induction hs arbitrary: r) (auto simp: no_hop_setHeader)

lemma no_hop_others [simp]:
  "no_hop_by_hop (res_status n r) = no_hop_by_hop r"
  "no_hop_by_hop (res_send b r) = no_hop_by_hop r"
  "no_hop_by_hop (res_end r) = no_hop_by_hop r"
  by (simp_all add: no_hop_by_hop_def)

lemma lower_names:
  "toLowerCase ''Access-Control-Allow-Origin'' = ''access-control-allow-origin''"
  "toLowerCase ''Access-Control-Allow-Headers'' = ''access-control-allow-headers''"
  "toLowerCase ''Cache-Control'' = ''cache-control''"
  "toLowerCase ''Content-Type'' = ''content-type''"
  "toLowerCase ''Connection'' = ''connection''"
  by (simp_all add: toLowerCase_def lower_char_def char_of_def bit_Suc_0_iff)

lemma no_hop_relay_cors: "no_hop_by_hop (relay_cors new_res)"
  unfolding relay_cors_def
  by (intro no_hop_setHeader) (simp_all add: no_hop_by_hop_def new_res_def lower_names hopByHop_def)

lemma no_hop_proxy: "no_hop_by_hop (rr_res (proxy env q))"
proof -
  have fwd: "no_hop_by_hop
      (setHeader ''Cache-Control'' ''no-store''
        (setHeader ''Access-Control-Allow-Origin'' ''*''
          (forward_headers hs (res_status n (relay_cors new_res)))))" for hs n
    by (intro no_hop_setHeader no_hop_forward)
      (simp_all add: no_hop_relay_cors lower_names hopByHop_def)
  show ?thesis
    using no_hop_relay_cors fwd
    by (auto simp: proxy_def Let_def bad_gateway_def split: option.splits sum.splits)
qed

text \<open>
  C6: whatever headers the upstream sends, and on every path through \<open>/proxy\<close>, the
  client response holds no header whose lower-case name is one of connection, keep-alive,
  proxy-authenticate, proxy-authorization, te, trailers, transfer-encoding, upgrade.
\<close>

theorem proxy_forwards_no_hop_by_hop:
  "\<forall>(k, v) \<in> set (res_headers (rr_res (proxy env q))). toLowerCase k \<notin> set hopByHop"
  using no_hop_proxy [of env q] by (simp add: no_hop_by_hop_def)

theorem proxy_forwards_no_hop_by_hop_witness:
  "res_headers (rr_res (proxy keep_alive_env (Some ''http://rs.local/data.json'')))
     = [(''Access-Control-Allow-Headers'', ''Origin, X-Requested-With, Content-Type, Accept''),
        (''content-type'', ''text/plain''),
        (''Access-Control-Allow-Origin'', ''*''),
        (''Cache-Control'', ''no-store'')]
   \<and> toLowerCase ''content-type'' \<notin> set hopByHop
   \<and> toLowerCase ''Cache-Control'' \<notin> set hopByHop"
proof -
  have l: "toLowerCase ''content-type'' = ''content-type''"
    "toLowerCase ''transfer-encoding'' = ''transfer-encoding''"
    by (simp_all add: toLowerCase_def lower_char_def char_of_def bit_Suc_0_iff)
  have h: "res_headers (rr_res (proxy keep_alive_env (Some ''http://rs.local/data.json'')))
     = [(''Access-Control-Allow-Headers'', ''Origin, X-Requested-With, Content-Type, Accept''),
        (''content-type'', ''text/plain''),
        (''Access-Control-Allow-Origin'', ''*''),
        (''Cache-Control'', ''no-store'')]"
    by (simp add: proxy_def keep_alive_env_def isHostAllowed_def relay_cors_def new_res_def
        forward_headers_def setHeader_def res_status_def lower_names l hopByHop_def)
  show ?thesis
    using proxy_forwards_no_hop_by_hop [of keep_alive_env "Some ''http://rs.local/data.json''"]
    unfolding h by simp
qed

section \<open>URL validation and the allowlist, endpoint by endpoint\<close>

lemma pollLoop_not_started:
  "ps_loop (sse_poll parseInt parse uq iq) = None \<Longrightarrow> p_fetches (sse_poll_run P parseInt parse E uq iq fuel) = []"
  by (simp add: sse_poll_run_def Let_def)

text \<open>
  C2, as stated (a present \<open>url\<close> that does not parse is rejected with 400 and no fetch,
  on \<open>/proxy\<close> as on \<open>/sse\<close>), fails on \<open>/proxy\<close>: the relay has no URL validation of its
  own.  With an empty allowlist the text \<open>not a url\<close>, which no parser accepts, is handed
  to \<open>fetch\<close>, and the rejection of that call is answered with 502.
\<close>

theorem proxy_fetches_unparseable_url:
  "new_URL (unreachable_env []) ''not a url'' = None
   \<and> rr_fetches (proxy (unreachable_env []) (Some ''not a url'')) = [''not a url'']
   \<and> statusCode (rr_res (proxy (unreachable_env []) (Some ''not a url''))) = 502"
  by (simp add: unreachable_env_def simple_url_parser_def proxy_def isHostAllowed_def
      bad_gateway_def)

text \<open>
  C2, amended.  On the poll endpoint (\<open>/sse\<close> of server.js) a present \<open>url\<close> that does
  not parse is answered 400 and the loop is not started: no fetch is made, however long
  the request is observed.  On the relay (\<open>/proxy\<close> and its \<open>/sse\<close>) such a \<open>url\<close> is
  refused before any fetch only under a non-empty allowlist, and then with 403; under an
  empty allowlist it is handed to \<open>fetch\<close>.
\<close>

theorem unparseable_url_by_endpoint:
  assumes "u \<noteq> []"
  shows "(parse u = None \<longrightarrow>
            statusCode (ps_res (sse_poll parseInt parse (Some u) iq)) = 400
          \<and> written (ps_res (sse_poll parseInt parse (Some u) iq)) = [''Invalid url parameter'']
          \<and> p_fetches (sse_poll_run P parseInt parse E (Some u) iq fuel) = [])
       \<and> (new_URL env u = None \<and> ALLOWED_HOSTS env \<noteq> [] \<longrightarrow>
            statusCode (rr_res (proxy env (Some u))) = 403
          \<and> rr_fetches (proxy env (Some u)) = []
          \<and> statusCode (rr_res (sse_relay env (Some u))) = 403
          \<and> rr_fetches (sse_relay env (Some u)) = [])
       \<and> (new_URL env u = None \<and> ALLOWED_HOSTS env = [] \<longrightarrow>
            rr_fetches (proxy env (Some u)) = [u]
          \<and> rr_fetches (sse_relay env (Some u)) = [u])"
proof -
  have "p_fetches (sse_poll_run P parseInt parse E (Some u) iq fuel) = []" if "parse u = None"
    using that assms by (intro pollLoop_not_started) (simp add: sse_poll_def Let_def)
  moreover have "statusCode (ps_res (sse_poll parseInt parse (Some u) iq)) = 400
      \<and> written (ps_res (sse_poll parseInt parse (Some u) iq)) = [''Invalid url parameter'']"
    if "parse u = None"
    using that assms
    by (simp add: sse_poll_def Let_def res_send_def res_end_def res_write_def res_status_def
        cors_def setHeader_def new_res_def)
  moreover have "statusCode (rr_res (proxy env (Some u))) = 403
          \<and> rr_fetches (proxy env (Some u)) = []
          \<and> statusCode (rr_res (sse_relay env (Some u))) = 403
          \<and> rr_fetches (sse_relay env (Some u)) = []"
    if "new_URL env u = None" "ALLOWED_HOSTS env \<noteq> []"
    using that assms by (simp add: proxy_def sse_relay_def isHostAllowed_def Let_def)
  moreover have "rr_fetches (proxy env (Some u)) = [u] \<and> rr_fetches (sse_relay env (Some u)) = [u]"
    if "ALLOWED_HOSTS env = []"
    using that assms
    by (auto simp: proxy_def sse_relay_def isHostAllowed_def Let_def bad_gateway_def
        split: sum.splits option.splits)
  ultimately show ?thesis by blast
qed

theorem unparseable_url_by_endpoint_witness:
  "''not a url'' \<noteq> []
   \<and> simple_url_parser ''not a url'' = None
   \<and> statusCode (ps_res (sse_poll small_parseInt simple_url_parser (Some ''not a url'') None)) = 400
   \<and> p_fetches (sse_poll_run example_platform small_parseInt simple_url_parser flaky_env
         (Some ''not a url'') None 5) = []
   \<and> statusCode (rr_res (proxy (unreachable_env [''rs.local'']) (Some ''not a url''))) = 403
   \<and> rr_fetches (proxy (unreachable_env [''rs.local'']) (Some ''not a url'')) = []
   \<and> rr_fetches (sse_relay (unreachable_env []) (Some ''not a url'')) = [''not a url'']"
proof -
  have u: "''not a url'' \<noteq> []" by simp
  have n: "simple_url_parser ''not a url'' = None"
    by (simp add: simple_url_parser_def)
  show ?thesis
    using unparseable_url_by_endpoint [OF u, where parse = simple_url_parser and iq = None
        and parseInt = small_parseInt and P = example_platform and E = flaky_env and fuel = 5
        and env = "unreachable_env [''rs.local'']"]
      unparseable_url_by_endpoint [OF u, where parse = simple_url_parser and iq = None
        and parseInt = small_parseInt and P = example_platform and E = flaky_env and fuel = 5
        and env = "unreachable_env []"] n
    by (simp add: unreachable_env_def)
qed

text \<open>
  C3, as stated (the Poll Synthesizer answers 403 when the host is not in a non-empty
  allowlist), fails: server.js has no allowlist.  Its \<open>/sse\<close> handler takes no allowlist
  at all; for a target on \<open>evil.example\<close>, a host outside the list \<open>rs.local\<close>, it
  answers 200 with the stream headers and starts the loop on that target.
\<close>

theorem sse_poll_ignores_allowlist:
  "simple_url_parser ''http://evil.example/data'' = Some ''evil.example''
   \<and> ''evil.example'' \<notin> set [''rs.local'']
   \<and> statusCode (ps_res (sse_poll small_parseInt simple_url_parser (Some ''http://evil.example/data'') None)) = 200
   \<and> (''Content-Type'', ''text/event-stream'')
       \<in> set (res_headers (ps_res (sse_poll small_parseInt simple_url_parser (Some ''http://evil.example/data'') None)))
   \<and> ps_loop (sse_poll small_parseInt simple_url_parser (Some ''http://evil.example/data'') None)
       = Some (''http://evil.example/data'', Fin 200)"
proof -
  have "small_parseInt ''undefined'' = NaN"
    by (simp add: small_parseInt_def digit_cls_def)
  then show ?thesis
    by (simp add: simple_url_parser_def sse_poll_def Let_def res_writeHead_def setHeader_def
        res_status_def cors_def new_res_def interval_of_def lower_names)
qed

text \<open>
  C3, amended.  The allowlist belongs to the relay: for a target whose host is not in a
  non-empty allowlist, \<open>/sse\<close> and \<open>/proxy\<close> of the relay answer 403 with the text
  \<open>host not allowed\<close>, make no fetch, start no pump and set no header besides those of
  the CORS middleware.  The Poll Synthesizer (\<open>/sse\<close> of server.js) checks only that the
  \<open>url\<close> is present and parses; it then answers 200 with the stream headers and
  starts the loop, whatever the host.
\<close>

theorem allowlist_by_endpoint:
  assumes "u \<noteq> []"
  shows "(new_URL env u = Some h \<and> h \<notin> set (ALLOWED_HOSTS env) \<and> ALLOWED_HOSTS env \<noteq> [] \<longrightarrow>
            sse_relay env (Some u)
              = \<lparr>rr_res = res_send ''host not allowed'' (res_status 403 (relay_cors new_res)),
                 rr_fetches = [], rr_reader = None\<rparr>
          \<and> proxy env (Some u) = sse_relay env (Some u)
          \<and> statusCode (rr_res (sse_relay env (Some u))) = 403
          \<and> written (rr_res (sse_relay env (Some u))) = [''host not allowed'']
          \<and> map fst (res_headers (rr_res (sse_relay env (Some u))))
              = [''Access-Control-Allow-Origin'', ''Access-Control-Allow-Headers''])
       \<and> (parse u = Some h \<longrightarrow>
            statusCode (ps_res (sse_poll parseInt parse (Some u) iq)) = 200
          \<and> (''Content-Type'', ''text/event-stream'')
              \<in> set (res_headers (ps_res (sse_poll parseInt parse (Some u) iq)))
          \<and> ps_loop (sse_poll parseInt parse (Some u) iq) = Some (u, interval_of parseInt iq))"
  using assms
  by (simp add: sse_relay_def proxy_def isHostAllowed_def Let_def sse_poll_def res_send_def
      res_end_def res_write_def res_status_def relay_cors_def setHeader_def new_res_def
      res_writeHead_def cors_def lower_names)

theorem allowlist_by_endpoint_witness:
  "''http://evil.example/data'' \<noteq> []
   \<and> new_URL (unreachable_env [''rs.local'']) ''http://evil.example/data'' = Some ''evil.example''
   \<and> ''evil.example'' \<notin> set (ALLOWED_HOSTS (unreachable_env [''rs.local'']))
   \<and> statusCode (rr_res (sse_relay (unreachable_env [''rs.local'']) (Some ''http://evil.example/data''))) = 403
   \<and> rr_fetches (proxy (unreachable_env [''rs.local'']) (Some ''http://evil.example/data'')) = []
   \<and> statusCode (ps_res (sse_poll small_parseInt simple_url_parser (Some ''http://evil.example/data'') (Some ''100''))) = 200"
proof -
  have u: "''http://evil.example/data'' \<noteq> []" by simp
  have e: "simple_url_parser ''http://evil.example/data'' = Some ''evil.example''"
    by (simp add: simple_url_parser_def)
  show ?thesis
    using allowlist_by_endpoint [OF u, where env = "unreachable_env [''rs.local'']"
        and h = "''evil.example''" and parse = simple_url_parser and parseInt = small_parseInt
        and iq = "Some ''100''"] e
    by (simp add: unreachable_env_def)
qed

section \<open>The poll loop and failing iterations\<close>







section \<open>Client disconnect\<close>

lemma pump_run_append: "pump_run (xs @ ys) st = pump_run ys (pump_run xs st)"
  by (simp add: pump_run_def)

lemma pump_run_Cons: "pump_run (e # evs) st = pump_run evs (pump_step e st)"
  by (simp add: pump_run_def)

lemma pump_cancel_count:
  "pm_cancel_calls (pump_run evs st) = pm_cancel_calls st + count_list evs ClientClose"
proof (induction evs arbitrary: st)
  case Nil
  then show ?case by (simp add: pump_run_def)
next
  case (Cons e evs)
  have "pm_cancel_calls (pump_step e st)
          = pm_cancel_calls st + (if e = ClientClose then 1 else 0)"
    by (cases e) (auto simp: pump_finally_def split: list.splits source_item.splits)
  with Cons.IH [of "pump_step e st"] show ?case
    by (simp add: pump_run_Cons)
qed

lemma pump_inv_step: "pump_inv e0 st \<Longrightarrow> pump_inv e0 (pump_step e st)"
  by (cases e)
    (auto simp: pump_inv_def pump_finally_def res_end_def res_write_def
      split: list.splits source_item.splits)

lemma pump_inv_run: "pump_inv e0 st \<Longrightarrow> pump_inv e0 (pump_run evs st)"
  by (induction evs arbitrary: st) (simp_all add: pump_run_def pump_inv_step)

lemma pump_stopped_step:
  "\<not> pm_reading st \<Longrightarrow> \<not> pm_reading (pump_step e st) \<and> pm_res (pump_step e st) = pm_res st"
  by (cases e) simp_all

lemma pump_stopped_run:
  "\<not> pm_reading st \<Longrightarrow> \<not> pm_reading (pump_run evs st) \<and> pm_res (pump_run evs st) = pm_res st"
proof (induction evs arbitrary: st)
  case Nil
  then show ?case by (simp add: pump_run_def)
next
  case (Cons e evs)
  from pump_stopped_step [OF Cons.prems, of e] Cons.IH [of "pump_step e st"] show ?case
    by (simp add: pump_run_Cons)
qed

lemma pump_cancelled_step: "pm_cancelled st \<Longrightarrow> pm_cancelled (pump_step e st)"
  by (cases e) (auto simp: pump_finally_def split: list.splits source_item.splits)

lemma pump_cancelled_settles:
  "pm_cancelled st \<Longrightarrow> ReadSettles \<in> set evs \<Longrightarrow> \<not> pm_reading (pump_run evs st)"
proof (induction evs arbitrary: st)
  case Nil
  then show ?case by simp
next
  case (Cons e evs)
  show ?case
  proof (cases e)
    case ReadSettles
    with Cons.prems(1) have "\<not> pm_reading (pump_step e st)"
      by (simp add: pump_finally_def)
    from pump_stopped_run [OF this] show ?thesis
      by (simp add: pump_run_Cons)
  next
    case ClientClose
    with Cons.prems have "ReadSettles \<in> set evs" by simp
    from Cons.IH [OF pump_cancelled_step [OF Cons.prems(1)] this] show ?thesis
      by (simp add: pump_run_Cons)
  qed
qed

lemma res_unchanged_by_headers [simp]:
  "written (setHeader k v r) = written r"
  "writableEnded (setHeader k v r) = writableEnded r"
  "end_calls (setHeader k v r) = end_calls r"
  "written (res_status n r) = written r"
  "writableEnded (res_status n r) = writableEnded r"
  "end_calls (res_status n r) = end_calls r"
  by (simp_all add: setHeader_def res_status_def)

lemma res_unchanged_by_forward [simp]:
  "written (forward_headers hs r) = written r"
  "writableEnded (forward_headers hs r) = writableEnded r"
  "end_calls (forward_headers hs r) = end_calls r"
  unfolding forward_headers_def
  by (induction hs arbitrary: r, simp_all split: prod.splits)+

lemma res_unchanged_by_cors [simp]:
  "written (relay_cors r) = written r"
  "writableEnded (relay_cors r) = writableEnded r"
  "end_calls (relay_cors r) = end_calls r"
  by (simp_all add: relay_cors_def)

lemma pump_started_fresh_proxy:
  assumes "rr_reader (proxy env q) = Some src"
  shows "end_calls (rr_res (proxy env q)) = 0 \<and> \<not> writableEnded (rr_res (proxy env q))
       \<and> written (rr_res (proxy env q)) = []"
proof (cases "if falsy q then None else q")
  case None
  with assms show ?thesis by (simp add: proxy_def)
next
  case (Some target)
  show ?thesis
  proof (cases "isHostAllowed (ALLOWED_HOSTS env) (new_URL env) target")
    case False
    with Some assms show ?thesis by (simp add: proxy_def)
  next
    case True
    show ?thesis
    proof (cases "fetch env target")
      case (Inl err)
      with Some True assms show ?thesis by (simp add: proxy_def bad_gateway_def)
    next
      case (Inr remote)
      with Some True assms show ?thesis
        by (cases "r_body remote") (simp_all add: proxy_def Let_def new_res_def)
    qed
  qed
qed

lemma pump_started_fresh_sse:
  assumes "rr_reader (sse_relay env q) = Some src"
  shows "end_calls (rr_res (sse_relay env q)) = 0 \<and> \<not> writableEnded (rr_res (sse_relay env q))
       \<and> written (rr_res (sse_relay env q)) = []"
proof (cases "if falsy q then None else q")
  case None
  with assms show ?thesis by (simp add: sse_relay_def)
next
  case (Some target)
  show ?thesis
  proof (cases "isHostAllowed (ALLOWED_HOSTS env) (new_URL env) target")
    case False
    with Some assms show ?thesis by (simp add: sse_relay_def)
  next
    case True
    show ?thesis
    proof (cases "fetch env target")
      case (Inl err)
      with Some True assms show ?thesis by (simp add: sse_relay_def bad_gateway_def)
    next
      case (Inr remote)
      show ?thesis
      proof (cases "remote_ok remote")
        case False
        with Inr Some True assms show ?thesis
          by (cases "remote_text remote") (simp_all add: sse_relay_def Let_def bad_gateway_def)
      next
        case ok: True
        with Inr Some True assms show ?thesis
          by (cases "r_body remote") (simp_all add: sse_relay_def Let_def new_res_def)
      qed
    qed
  qed
qed

text \<open>
  C9: a connection on which \<open>/proxy\<close> or \<open>/sse\<close> of the relay has started the pump, and
  a sequence of events with at most one \<open>close\<close> of the client.  Then \<open>reader.cancel\<close> is
  called at most once and \<open>res.end\<close> at most once; when the client closes and the pending
  read then settles, \<open>res.end\<close> has been called exactly once and the pump has stopped.
  A chunk that arrives when the response is already ended is not written: the pump
  stops, and whatever happens after the pump has stopped leaves the response as it is.
\<close>

theorem pump_cancels_and_ends_once:
  assumes "count_list evs ClientClose \<le> 1"
    and "rr_reader (proxy env q) = Some src \<and> r = rr_res (proxy env q)
       \<or> rr_reader (sse_relay env q) = Some src \<and> r = rr_res (sse_relay env q)"
  shows "pm_cancel_calls (pump_run evs (pump_start r src)) \<le> 1
       \<and> end_calls (pm_res (pump_run evs (pump_start r src))) \<le> 1
       \<and> (\<forall>pre post. evs = pre @ ClientClose # post \<and> ReadSettles \<in> set post \<longrightarrow>
            end_calls (pm_res (pump_run evs (pump_start r src))) = 1
          \<and> \<not> pm_reading (pump_run evs (pump_start r src)))
       \<and> (\<forall>st. pm_reading st \<and> writableEnded (pm_res st) \<longrightarrow>
            written (pm_res (pump_step ReadSettles st)) = written (pm_res st)
          \<and> \<not> pm_reading (pump_step ReadSettles st))
       \<and> (\<forall>st more. \<not> pm_reading st \<longrightarrow> pm_res (pump_run more st) = pm_res st)"
proof -
  from assms(2) have fresh: "end_calls r = 0"
    using pump_started_fresh_proxy [of env q src] pump_started_fresh_sse [of env q src] by auto
  then have "pump_inv 0 (pump_start r src)"
    by (simp add: pump_inv_def pump_start_def)
  then have inv: "pump_inv 0 (pump_run evs (pump_start r src))"
    by (rule pump_inv_run)
  have cancel: "pm_cancel_calls (pump_run evs (pump_start r src)) \<le> 1"
    using assms(1) by (simp add: pump_cancel_count pump_start_def)
  have ends: "end_calls (pm_res (pump_run evs (pump_start r src))) \<le> 1"
    using inv by (simp add: pump_inv_def split: if_splits)
  have closed: "end_calls (pm_res (pump_run evs (pump_start r src))) = 1
          \<and> \<not> pm_reading (pump_run evs (pump_start r src))"
    if "evs = pre @ ClientClose # post" "ReadSettles \<in> set post" for pre post
  proof -
    have "pm_cancelled (pump_step ClientClose (pump_run pre (pump_start r src)))"
      by simp
    from pump_cancelled_settles [OF this that(2)]
    have "\<not> pm_reading (pump_run evs (pump_start r src))"
      by (simp add: that(1) pump_run_append pump_run_Cons)
    with inv show ?thesis
      by (simp add: pump_inv_def)
  qed
  have ended: "written (pm_res (pump_step ReadSettles st)) = written (pm_res st)
          \<and> \<not> pm_reading (pump_step ReadSettles st)"
    if "pm_reading st" "writableEnded (pm_res st)" for st
    using that
    by (auto simp: pump_finally_def res_end_def split: list.splits source_item.splits)
  from cancel ends closed ended pump_stopped_run show ?thesis
    by blast
qed

theorem pump_cancels_and_ends_once_witness:
  "count_list [ReadSettles, ClientClose, ReadSettles, ReadSettles] ClientClose \<le> 1
   \<and> rr_reader (proxy streaming_env (Some ''http://rs.local/sse''))
       = Some [Chunk ''a'', Chunk ''b'', Chunk ''c'']
   \<and> pm_cancel_calls (pump_run [ReadSettles, ClientClose, ReadSettles, ReadSettles]
        (pump_start (rr_res (proxy streaming_env (Some ''http://rs.local/sse'')))
           [Chunk ''a'', Chunk ''b'', Chunk ''c''])) = 1
   \<and> end_calls (pm_res (pump_run [ReadSettles, ClientClose, ReadSettles, ReadSettles]
        (pump_start (rr_res (proxy streaming_env (Some ''http://rs.local/sse'')))
           [Chunk ''a'', Chunk ''b'', Chunk ''c'']))) = 1
   \<and> written (pm_res (pump_run [ReadSettles, ClientClose, ReadSettles, ReadSettles]
        (pump_start (rr_res (proxy streaming_env (Some ''http://rs.local/sse'')))
           [Chunk ''a'', Chunk ''b'', Chunk ''c'']))) = [''a'']"
proof -
  let ?evs = "[ReadSettles, ClientClose, ReadSettles, ReadSettles]"
  let ?r = "rr_res (proxy streaming_env (Some ''http://rs.local/sse''))"
  let ?src = "[Chunk ''a'', Chunk ''b'', Chunk ''c'']"
  have c: "count_list ?evs ClientClose \<le> 1" by simp
  have p: "simple_url_parser ''http://rs.local/sse'' = Some ''rs.local''"
    by (simp add: simple_url_parser_def)
  have rd: "rr_reader (proxy streaming_env (Some ''http://rs.local/sse'')) = Some ?src"
    by (simp add: proxy_def streaming_env_def isHostAllowed_def p)
  then have h: "rr_reader (proxy streaming_env (Some ''http://rs.local/sse'')) = Some ?src \<and> ?r = ?r
      \<or> rr_reader (sse_relay streaming_env (Some ''http://rs.local/sse'')) = Some ?src
        \<and> ?r = rr_res (sse_relay streaming_env (Some ''http://rs.local/sse''))"
    by simp
  note t = pump_cancels_and_ends_once [OF c h]
  have "?evs = [ReadSettles] @ ClientClose # [ReadSettles, ReadSettles]
      \<and> ReadSettles \<in> set [ReadSettles, ReadSettles]"
    by simp
  with t have e: "end_calls (pm_res (pump_run ?evs (pump_start ?r ?src))) = 1"
    by blast
  from pump_started_fresh_proxy [OF rd] have w: "\<not> writableEnded ?r" "written ?r = []"
    by simp_all
  have "pm_cancel_calls (pump_run ?evs (pump_start ?r ?src)) = 1"
    by (simp add: pump_cancel_count pump_start_def)
  moreover have "written (pm_res (pump_run ?evs (pump_start ?r ?src))) = [''a'']"
    using w by (simp add: pump_run_def pump_start_def pump_finally_def res_write_def res_end_def)
  ultimately show ?thesis
    using c rd e by simp
qed

section \<open>The base64 frame\<close>

lemma b64_table:
  "\<forall>n \<in> set [0..<64]. b64_value (b64_char n) = Some n \<and> b64_char n \<noteq> CHR ''=''"
  by code_simp

lemma b64_value_char: "n < 64 \<Longrightarrow> b64_value (b64_char n) = Some n"
  using b64_table by simp

lemma b64_char_not_pad: "n < 64 \<Longrightarrow> b64_char n \<noteq> CHR ''=''"
  using b64_table by simp

lemma sextets:
  fixes x y z :: nat
  assumes "x < 256" "y < 256" "z < 256"
  shows "x div 4 < 64" "(x mod 4) * 16 + y div 16 < 64" "(y mod 16) * 4 + z div 64 < 64"
    "z mod 64 < 64" "(x mod 4) * 16 < 64" "(y mod 16) * 4 < 64"
proof -
  have "x mod 4 \<le> 3" "y mod 16 \<le> 15" by simp_all
  moreover have "y div 16 \<le> 15" "z div 64 \<le> 3" "x div 4 \<le> 63"
    using assms by simp_all
  ultimately show "x div 4 < 64" "(x mod 4) * 16 + y div 16 < 64"
    "(y mod 16) * 4 + z div 64 < 64" "z mod 64 < 64" "(x mod 4) * 16 < 64" "(y mod 16) * 4 < 64"
    by simp_all
qed

lemma octets:
  fixes x y z :: nat
  assumes "x < 256" "y < 256" "z < 256"
  shows "x div 4 * 4 + ((x mod 4) * 16 + y div 16) div 16 = x"
    "(((x mod 4) * 16 + y div 16) mod 16) * 16 + ((y mod 16) * 4 + z div 64) div 4 = y"
    "(((y mod 16) * 4 + z div 64) mod 4) * 64 + z mod 64 = z"
    "x div 4 * 4 + ((x mod 4) * 16) div 16 = x"
    "(((x mod 4) * 16 + y div 16) mod 16) * 16 + ((y mod 16) * 4) div 4 = y"
proof -
  have y16: "y div 16 < 16" and z64: "z div 64 < 4"
    using assms by simp_all
  have a: "((x mod 4) * 16 + y div 16) div 16 = x mod 4"
    using y16 by simp
  have b: "((x mod 4) * 16 + y div 16) mod 16 = y div 16"
    using y16 by simp
  have c: "((y mod 16) * 4 + z div 64) div 4 = y mod 16"
    using z64 by simp
  have d: "((y mod 16) * 4 + z div 64) mod 4 = z div 64"
    using z64 by simp
  show "x div 4 * 4 + ((x mod 4) * 16 + y div 16) div 16 = x"
    by (simp add: a)
  show "(((x mod 4) * 16 + y div 16) mod 16) * 16 + ((y mod 16) * 4 + z div 64) div 4 = y"
    using y16 by (simp add: b c)
  show "(((y mod 16) * 4 + z div 64) mod 4) * 64 + z mod 64 = z"
    using z64 by (simp add: d)
  show "x div 4 * 4 + ((x mod 4) * 16) div 16 = x"
    by simp
  show "(((x mod 4) * 16 + y div 16) mod 16) * 16 + ((y mod 16) * 4) div 4 = y"
    using y16 by (simp add: b)
qed

lemma base64_roundtrip: "base64_decode (base64 s) = Some s"
proof (induction s rule: base64.induct)
  case 1
  then show ?case by simp
next
  case (2 a)
  have x: "(of_char a :: nat) < 256" by simp
  show ?case
    using sextets [OF x x x] octets [OF x x x]
    by (simp add: Let_def b64_value_char)
next
  case (3 a b)
  have x: "(of_char a :: nat) < 256" and y: "(of_char b :: nat) < 256" by simp_all
  show ?case
    using sextets [OF x y y] octets [OF x y y]
    by (simp add: Let_def b64_value_char b64_char_not_pad)
next
  case (4 a b c rest)
  have x: "(of_char a :: nat) < 256" and y: "(of_char b :: nat) < 256"
    and z: "(of_char c :: nat) < 256" by simp_all
  show ?case
    using sextets [OF x y z] octets [OF x y z] "4.IH"
    by (simp add: Let_def b64_value_char b64_char_not_pad)
qed

lemma raw_text_frame:
  assumes "resp_ok r"
    and "\<not> str_includes (case up_content_type r of None \<Rightarrow> [] | Some c \<Rightarrow> c) ''application/json''"
    and "up_body r = Inr body"
    and "parseTextToNumbers (parseFloat P) (utf8_text body) = []"
  shows \<open>pollIter P (Inr r) = ''data: {"b64": "'' @ base64 (utf8_text body) @ ''"}'' @ frame_end\<close>
  using assms by (simp add: pollIter_def poll_try_def)

text \<open>
  C8, as stated (decoding the \<open>b64\<close> field gives back exactly the body of the response),
  fails for a body that is not well-formed UTF-8: the loop encodes the text \<open>r.text()\<close>
  made of the body, in which every ill-formed part has become U+FFFD.  For the plain-text
  body of the one byte \<open>FF\<close> the frame carries \<open>77+9\<close>, the three bytes \<open>EF BF BD\<close>; for
  the Latin-1 bytes of \<open>caf\<close> and e acute, \<open>63 61 66 E9\<close>, it carries \<open>Y2Fm77+9\<close>, the
  bytes \<open>63 61 66 EF BF BD\<close>.
\<close>

theorem b64_frame_not_the_body:
  \<open>resp_ok (plain_response [CHR 0xFF])
   \<and> up_content_type (plain_response [CHR 0xFF]) = Some ''text/plain''
   \<and> up_body (plain_response [CHR 0xFF]) = Inr [CHR 0xFF]
   \<and> parseTextToNumbers (parseFloat example_platform) (utf8_text [CHR 0xFF]) = []
   \<and> pollIter example_platform (Inr (plain_response [CHR 0xFF]))
       = ''data: {"b64": "77+9"}'' @ frame_end
   \<and> base64_decode ''77+9'' = Some [CHR 0xEF, CHR 0xBF, CHR 0xBD]
   \<and> base64_decode ''77+9'' \<noteq> Some [CHR 0xFF]
   \<and> pollIter example_platform (Inr (plain_response [CHR ''c'', CHR ''a'', CHR ''f'', CHR 0xE9]))
       = ''data: {"b64": "Y2Fm77+9"}'' @ frame_end
   \<and> base64_decode ''Y2Fm77+9'' = Some [CHR ''c'', CHR ''a'', CHR ''f'', CHR 0xEF, CHR 0xBF, CHR 0xBD]\<close>
proof -
  have t1: "utf8_text [CHR 0xFF] = [CHR 0xEF, CHR 0xBF, CHR 0xBD]"
    unfolding utf8_text_def
    by (rule chars_of_bytes) (simp add: utf8_decode_def bytes_needed_def encode_cp_def)
  have t2: "utf8_text [CHR ''c'', CHR ''a'', CHR ''f'', CHR 0xE9]
              = [CHR ''c'', CHR ''a'', CHR ''f'', CHR 0xEF, CHR 0xBF, CHR 0xBD]"
    unfolding utf8_text_def
    by (rule chars_of_bytes)
      (simp add: utf8_decode_def bytes_needed_def lead_bits_def lower_boundary_def
        upper_boundary_def encode_cp_def)
  have e1: "base64 [CHR 0xEF, CHR 0xBF, CHR 0xBD] = ''77+9''"
    by code_simp
  have e2: "base64 [CHR ''c'', CHR ''a'', CHR ''f'', CHR 0xEF, CHR 0xBF, CHR 0xBD] = ''Y2Fm77+9''"
    by code_simp
  have n1: "parseTextToNumbers (parseFloat example_platform) [CHR 0xEF, CHR 0xBF, CHR 0xBD] = []"
    by (simp add: parseTextToNumbers.simps sample_re_def mant_re_def tail_re_def exp_re_def
        digit_cls_def)
  have n2: "parseTextToNumbers (parseFloat example_platform)
              [CHR ''c'', CHR ''a'', CHR ''f'', CHR 0xEF, CHR 0xBF, CHR 0xBD] = []"
    by (simp add: parseTextToNumbers.simps sample_re_def mant_re_def tail_re_def exp_re_def
        digit_cls_def)
  have ok: "resp_ok (plain_response body)" for body
    by (simp add: plain_response_def resp_ok_def)
  have ct: "\<not> str_includes (case up_content_type (plain_response body) of
      None \<Rightarrow> [] | Some c \<Rightarrow> c) ''application/json''" for body
    by (simp add: plain_response_def)
  have bd: "up_body (plain_response body) = Inr body" for body
    by (simp add: plain_response_def)
  have d1: "base64_decode ''77+9'' = Some [CHR 0xEF, CHR 0xBF, CHR 0xBD]"
    using base64_roundtrip [of "[CHR 0xEF, CHR 0xBF, CHR 0xBD]"] by (simp only: e1)
  have d2: "base64_decode ''Y2Fm77+9''
              = Some [CHR ''c'', CHR ''a'', CHR ''f'', CHR 0xEF, CHR 0xBF, CHR 0xBD]"
    using base64_roundtrip [of "[CHR ''c'', CHR ''a'', CHR ''f'', CHR 0xEF, CHR 0xBF, CHR 0xBD]"]
    by (simp only: e2)
  from n1 have m1: "parseTextToNumbers (parseFloat example_platform) (utf8_text [CHR 0xFF]) = []"
    by (simp only: t1)
  from n2 have m2: "parseTextToNumbers (parseFloat example_platform)
      (utf8_text [CHR ''c'', CHR ''a'', CHR ''f'', CHR 0xE9]) = []"
    by (simp only: t2)
  from raw_text_frame [OF ok ct bd m1, unfolded t1 e1]
  have f1: \<open>pollIter example_platform (Inr (plain_response [CHR 0xFF]))
       = ''data: {"b64": "77+9"}'' @ frame_end\<close>
    by simp
  from raw_text_frame [OF ok ct bd m2, unfolded t2 e2]
  have f2: \<open>pollIter example_platform
        (Inr (plain_response [CHR ''c'', CHR ''a'', CHR ''f'', CHR 0xE9]))
       = ''data: {"b64": "Y2Fm77+9"}'' @ frame_end\<close>
    by simp
  have c: "up_content_type (plain_response [CHR 0xFF]) = Some ''text/plain''"
    by (simp add: plain_response_def)
  from ok [of "[CHR 0xFF]"] c bd [of "[CHR 0xFF]"] m1 f1 d1 f2 d2 show ?thesis
    by simp
qed

text \<open>
  C8, amended.  For an upstream response that is not JSON and from whose text the Sample
  Extractor yields no sample, the iteration writes \<open>data: \<close> followed by the JSON
  object whose one field \<open>b64\<close> is the base64 encoding of the text the body decodes to
  (and by the frame end of the loop); decoding that field gives this text back, byte for
  byte, and the text is the body itself if and only if the body is well-formed UTF-8.
\<close>

theorem b64_frame_roundtrip:
  assumes "resp_ok r"
    and "\<not> str_includes (case up_content_type r of None \<Rightarrow> [] | Some c \<Rightarrow> c) ''application/json''"
    and "up_body r = Inr body"
    and "parseTextToNumbers (parseFloat P) (utf8_text body) = []"
  shows \<open>pollIter P (Inr r) = ''data: {"b64": "'' @ base64 (utf8_text body) @ ''"}'' @ frame_end
       \<and> base64_decode (base64 (utf8_text body)) = Some (utf8_text body)
       \<and> (utf8_text body = body \<longleftrightarrow> well_formed_utf8 (map of_char body))\<close>
proof -
  from utf8_text_well_formed [of body] utf8_text_fixed [of body]
  have "utf8_text body = body \<longleftrightarrow> well_formed_utf8 (map of_char body)"
    by blast
  with raw_text_frame [OF assms] base64_roundtrip [of "utf8_text body"]
  show ?thesis by simp
qed

theorem b64_frame_roundtrip_witness:
  \<open>resp_ok (plain_response [CHR ''n'', CHR ''a'', CHR 0xC3, CHR 0xAF, CHR ''f''])
   \<and> well_formed_utf8 (map of_char [CHR ''n'', CHR ''a'', CHR 0xC3, CHR 0xAF, CHR ''f''])
   \<and> parseTextToNumbers (parseFloat example_platform)
         (utf8_text [CHR ''n'', CHR ''a'', CHR 0xC3, CHR 0xAF, CHR ''f'']) = []
   \<and> pollIter example_platform
         (Inr (plain_response [CHR ''n'', CHR ''a'', CHR 0xC3, CHR 0xAF, CHR ''f'']))
       = ''data: {"b64": "bmHDr2Y="}'' @ frame_end
   \<and> base64_decode ''bmHDr2Y='' = Some [CHR ''n'', CHR ''a'', CHR 0xC3, CHR 0xAF, CHR ''f'']\<close>
proof -
  define body where "body = [CHR ''n'', CHR ''a'', CHR 0xC3, CHR 0xAF, CHR ''f'']"
  have ok: "resp_ok (plain_response body)"
    by (simp add: plain_response_def resp_ok_def)
  have ct: "\<not> str_includes (case up_content_type (plain_response body) of
      None \<Rightarrow> [] | Some c \<Rightarrow> c) ''application/json''"
    by (simp add: plain_response_def)
  have bd: "up_body (plain_response body) = Inr body"
    by (simp add: plain_response_def)
  have wf: "well_formed_utf8 (map of_char body)"
    unfolding body_def by (simp add: between_def)
  have tx: "utf8_text body = body"
    unfolding body_def utf8_text_def
    by (rule chars_of_bytes)
      (simp add: utf8_decode_def bytes_needed_def lead_bits_def lower_boundary_def
        upper_boundary_def encode_cp_def)
  have none: "parseTextToNumbers (parseFloat example_platform) (utf8_text body) = []"
    unfolding tx unfolding body_def
    by (simp add: parseTextToNumbers.simps sample_re_def mant_re_def tail_re_def exp_re_def
        digit_cls_def)
  have enc: "base64 body = ''bmHDr2Y=''"
    unfolding body_def by code_simp
  note t = b64_frame_roundtrip [OF ok ct bd none]
  from t wf have same: "utf8_text body = body"
    by blast
  from t have \<open>pollIter example_platform (Inr (plain_response body))
          = ''data: {"b64": "'' @ base64 (utf8_text body) @ ''"}'' @ frame_end
        \<and> base64_decode (base64 (utf8_text body)) = Some (utf8_text body)\<close>
    by blast
  then have \<open>pollIter example_platform (Inr (plain_response body))
          = ''data: {"b64": "'' @ ''bmHDr2Y='' @ ''"}'' @ frame_end
        \<and> base64_decode ''bmHDr2Y='' = Some body\<close>
    unfolding same enc .
  with ok wf none show ?thesis
    unfolding body_def by simp
qed

section \<open>The Sample Extractor scans leftmost and longest\<close>

subsection \<open>The words of the pattern\<close>

lemma rx_match_StarCls_lang:
  "set (rx_match (StarCls cs) s) = {r. \<exists>w. set w \<subseteq> set cs \<and> s = w @ r}"
proof (induction s)
  case Nil
  then show ?case by auto
next
  case (Cons c s)
  show ?case
  proof (cases "c \<in> set cs")
    case True
    have "{r. \<exists>w. set w \<subseteq> set cs \<and> c # s = w @ r}
            = insert (c # s) {r. \<exists>w. set w \<subseteq> set cs \<and> s = w @ r}"
      using True by (auto simp: Cons_eq_append_conv)
    with True Cons.IH show ?thesis by simp
  next
    case False
    have "{r. \<exists>w. set w \<subseteq> set cs \<and> c # s = w @ r} = {c # s}"
      using False by (auto simp: Cons_eq_append_conv)
    with False show ?thesis by simp
  qed
qed

lemma rx_match_PlusCls_lang:
  "set (rx_match (PlusCls cs) s) = {r. \<exists>w. w \<noteq> [] \<and> set w \<subseteq> set cs \<and> s = w @ r}"
proof (cases s)
  case Nil
  then show ?thesis by simp
next
  case (Cons c t)
  show ?thesis
  proof (cases "c \<in> set cs")
    case True
    have "{r. \<exists>w. w \<noteq> [] \<and> set w \<subseteq> set cs \<and> c # t = w @ r}
            = {r. \<exists>w. set w \<subseteq> set cs \<and> t = w @ r}"
      using True by (auto simp: Cons_eq_append_conv)
    with True Cons show ?thesis by (simp add: rx_match_StarCls_lang)
  next
    case False
    have "{r. \<exists>w. w \<noteq> [] \<and> set w \<subseteq> set cs \<and> c # t = w @ r} = {}"
      using False by (auto simp: Cons_eq_append_conv)
    with False Cons show ?thesis by simp
  qed
qed

lemma rx_match_lang: "set (rx_match re s) = {r. \<exists>w \<in> lang re. s = w @ r}"
proof (induction re arbitrary: s)
  case (Cls cs)
  then show ?case by (cases s) auto
next
  case (StarCls cs)
  then show ?case by (simp add: rx_match_StarCls_lang)
next
  case (PlusCls cs)
  then show ?case by (simp add: rx_match_PlusCls_lang)
next
  case (Seq a b)
  have "set (rx_match (Seq a b) s) = (\<Union>m \<in> set (rx_match a s). set (rx_match b m))"
    by simp
  also have "\<dots> = {r. \<exists>u \<in> lang a. \<exists>v \<in> lang b. s = u @ v @ r}"
    unfolding Seq.IH by blast
  also have "\<dots> = {r. \<exists>w \<in> lang (Seq a b). s = w @ r}"
    by fastforce
  finally show ?case .
next
  case (Opt a)
  then show ?case by auto
qed

lemma in_lang_Seq: "w \<in> lang (Seq a b) \<longleftrightarrow> (\<exists>u v. w = u @ v \<and> u \<in> lang a \<and> v \<in> lang b)"
  by auto

declare lang.simps(4) [simp del]

lemma lang_sign: "s \<in> lang (Opt (Cls ''-+'')) \<longleftrightarrow> sign_part s"
  by (auto simp: sign_part_def)

lemma lang_point: "pt \<in> lang (Opt (Cls ''.'')) \<longleftrightarrow> pt = [] \<or> pt = ''.''"
  by auto

lemma lang_digits: "ds \<in> lang (PlusCls digit_cls) \<longleftrightarrow> ds \<noteq> [] \<and> set ds \<subseteq> set digit_cls"
  by simp

lemma lang_exponent: "ex \<in> lang (Opt exp_re) \<longleftrightarrow> exponent_part ex"
proof
  assume "ex \<in> lang (Opt exp_re)"
  then consider "ex = []" | "ex \<in> lang exp_re" by auto
  then show "exponent_part ex"
  proof cases
    case 1
    then show ?thesis by (simp add: exponent_part_def)
  next
    case 2
    then obtain u v where ex: "ex = u @ v" and u: "u \<in> lang (Cls ''eE'')"
      and v: "v \<in> lang (Seq (Opt (Cls ''-+'')) (PlusCls digit_cls))"
      unfolding exp_re_def in_lang_Seq by blast
    from v obtain sg ds where "v = sg @ ds" "sign_part sg" "ds \<noteq> []" "set ds \<subseteq> set digit_cls"
      unfolding in_lang_Seq lang_sign lang_digits by blast
    moreover from u obtain e where "u = [e]" "e = CHR ''e'' \<or> e = CHR ''E''"
      by auto
    ultimately show ?thesis
      unfolding exponent_part_def ex by auto
  qed
next
  assume "exponent_part ex"
  then consider "ex = []"
    | e sg ds where "ex = e # sg @ ds" "e = CHR ''e'' \<or> e = CHR ''E''" "sign_part sg"
        "ds \<noteq> []" "set ds \<subseteq> set digit_cls"
    unfolding exponent_part_def by blast
  then show "ex \<in> lang (Opt exp_re)"
  proof cases
    case 1
    then show ?thesis by simp
  next
    case 2
    from 2(3-5) have "sg @ ds \<in> lang (Seq (Opt (Cls ''-+'')) (PlusCls digit_cls))"
      unfolding in_lang_Seq lang_sign lang_digits by blast
    moreover from 2(2) have "[e] \<in> lang (Cls ''eE'')" by auto
    ultimately have "[e] @ sg @ ds \<in> lang exp_re"
      unfolding exp_re_def in_lang_Seq [of _ "Cls ''eE''"] by blast
    with 2(1) show ?thesis by simp
  qed
qed

lemma lang_sample: "w \<in> lang sample_re \<longleftrightarrow> numeric_literal w"
proof
  assume "w \<in> lang sample_re"
  then obtain sg m where w: "w = sg @ m" and sg: "sign_part sg" and m: "m \<in> lang mant_re"
    unfolding sample_re_def in_lang_Seq lang_sign by blast
  from m obtain ip d where md: "m = ip @ d" and ip: "set ip \<subseteq> set digit_cls"
    and d: "d \<in> lang (Seq (Opt (Cls ''.'')) tail_re)"
    unfolding mant_re_def in_lang_Seq [of _ "StarCls digit_cls"] by auto
  from d obtain pt t where dt: "d = pt @ t" and pt: "pt = [] \<or> pt = ''.''" and t: "t \<in> lang tail_re"
    unfolding in_lang_Seq lang_point by blast
  from t obtain fp ex where tf: "t = fp @ ex" and fp: "fp \<noteq> []" "set fp \<subseteq> set digit_cls"
    and ex: "exponent_part ex"
    unfolding tail_re_def in_lang_Seq lang_exponent lang_digits by blast
  have "w = sg @ ip @ pt @ fp @ ex"
    by (simp add: w md dt tf)
  with sg ip pt fp ex show "numeric_literal w"
    unfolding numeric_literal_def by blast
next
  assume "numeric_literal w"
  then obtain sg ip pt fp ex where w: "w = sg @ ip @ pt @ fp @ ex" and sg: "sign_part sg"
    and ip: "set ip \<subseteq> set digit_cls" and pt: "pt = [] \<or> pt = ''.''"
    and fp: "fp \<noteq> []" "set fp \<subseteq> set digit_cls" and ex: "exponent_part ex"
    unfolding numeric_literal_def by blast
  from fp ex have "fp @ ex \<in> lang tail_re"
    unfolding tail_re_def in_lang_Seq lang_exponent lang_digits by blast
  with pt have "pt @ fp @ ex \<in> lang (Seq (Opt (Cls ''.'')) tail_re)"
    unfolding in_lang_Seq lang_point by blast
  moreover from ip have "ip \<in> lang (StarCls digit_cls)" by simp
  ultimately have "ip @ pt @ fp @ ex \<in> lang mant_re"
    unfolding mant_re_def in_lang_Seq [of _ "StarCls digit_cls"] by blast
  with sg show "w \<in> lang sample_re"
    unfolding sample_re_def in_lang_Seq lang_sign w by blast
qed

lemma rx_match_sample_iff:
  "r \<in> set (rx_match sample_re s) \<longleftrightarrow> (\<exists>w. numeric_literal w \<and> s = w @ r)"
  unfolding rx_match_lang using lang_sample by auto

subsection \<open>The first match tried is the longest\<close>

lemma hd_min_Nil [simp]: "hd_min []"
  by (simp add: hd_min_def)

lemma hd_min_single [simp]: "hd_min [x]"
  by (simp add: hd_min_def)

lemma hd_min_append:
  assumes "hd_min xs" and "xs \<noteq> []" and "\<And>y. y \<in> set ys \<Longrightarrow> length (hd xs) \<le> length y"
  shows "hd_min (xs @ ys)"
  using assms by (auto simp: hd_min_def)

lemma hd_min_snoc_longer:
  assumes "hd_min xs" and "\<And>x. x \<in> set xs \<Longrightarrow> length x \<le> length y"
  shows "hd_min (xs @ [y])"
proof (cases xs)
  case Nil
  then show ?thesis by simp
next
  case (Cons x xs')
  with assms(2) [of x] have "length (hd xs) \<le> length y" by simp
  with assms(1) Cons show ?thesis
    by (intro hd_min_append) auto
qed

lemma rx_match_le: "r \<in> set (rx_match re s) \<Longrightarrow> length r \<le> length s"
  by (auto dest!: rx_match_suffix suffix_length_le)

lemma digit_not_special:
  "c \<in> set digit_cls \<Longrightarrow>
     c \<noteq> CHR ''.'' \<and> c \<noteq> CHR ''e'' \<and> c \<noteq> CHR ''E'' \<and> c \<noteq> CHR ''-'' \<and> c \<noteq> CHR ''+''"
  by (auto simp: digit_cls_def)

lemma star_min: "hd_min (rx_match (StarCls cs) s)"
proof (induction s)
  case Nil
  then show ?case by simp
next
  case (Cons c s)
  show ?case
  proof (cases "c \<in> set cs")
    case True
    have "hd_min (rx_match (StarCls cs) s @ [c # s])"
      using Cons.IH by (rule hd_min_snoc_longer) (auto dest: rx_match_le)
    with True show ?thesis by simp
  next
    case False
    then show ?thesis by simp
  qed
qed

lemma plus_min: "hd_min (rx_match (PlusCls cs) s)"
  by (cases s) (simp_all add: star_min)

text \<open>The exponent: after the letter, an optional sign and at least one digit.\<close>

lemma signed_digits:
  "rx_match (Seq (Opt (Cls ''-+'')) (PlusCls digit_cls)) s
     = (case s of
          [] \<Rightarrow> []
        | c # r \<Rightarrow> if c = CHR ''-'' \<or> c = CHR ''+'' then rx_match (PlusCls digit_cls) r
                   else rx_match (PlusCls digit_cls) s)"
proof (cases s)
  case Nil
  then show ?thesis by simp
next
  case (Cons c r)
  have "rx_match (PlusCls digit_cls) (c # r) = []" if "c = CHR ''-'' \<or> c = CHR ''+''"
    using that digit_not_special [of c] by auto
  with Cons show ?thesis
    by (auto simp del: rx_match.simps(5,6))
qed

lemma exp_unfold:
  "rx_match exp_re s
     = (case s of
          [] \<Rightarrow> []
        | e # r \<Rightarrow> if e = CHR ''e'' \<or> e = CHR ''E''
                   then rx_match (Seq (Opt (Cls ''-+'')) (PlusCls digit_cls)) r else [])"
  by (cases s) (simp_all add: exp_re_def del: rx_match.simps(8))

lemma exp_min: "hd_min (rx_match exp_re s)"
  unfolding exp_unfold signed_digits
  by (simp add: plus_min split: list.splits del: rx_match.simps(5,6))

lemma exp_shorter: "r \<in> set (rx_match exp_re s) \<Longrightarrow> length r < length s"
  by (auto simp: exp_unfold signed_digits split: if_splits list.splits
      dest!: rx_match_PlusCls_shorter simp del: rx_match.simps(5,6,7,8))

lemma exp_of_digit: "c \<in> set digit_cls \<Longrightarrow> rx_match exp_re (c # r) = []"
  using digit_not_special [of c] by (auto simp: exp_re_def)

lemma opt_exp_min: "hd_min (rx_match (Opt exp_re) s)"
  unfolding rx_match.simps
  using exp_min by (rule hd_min_snoc_longer) (auto dest: exp_shorter)

lemma more_digits_Nil: "rx_match more_digits_re [] = [[]]"
  by (simp add: more_digits_re_def exp_re_def)

lemma more_digits_digit:
  "c \<in> set digit_cls \<Longrightarrow> rx_match more_digits_re (c # r) = rx_match more_digits_re r @ [c # r]"
  by (simp add: more_digits_re_def exp_of_digit)

lemma more_digits_other:
  "c \<notin> set digit_cls \<Longrightarrow> rx_match more_digits_re (c # r) = rx_match exp_re (c # r) @ [c # r]"
  by (simp add: more_digits_re_def)

lemma more_digits_nonempty: "rx_match more_digits_re s \<noteq> []"
proof (cases s)
  case Nil
  then show ?thesis by (simp add: more_digits_Nil)
next
  case (Cons c r)
  then show ?thesis
    by (cases "c \<in> set digit_cls") (simp_all add: more_digits_digit more_digits_other)
qed

lemma more_digits_min: "hd_min (rx_match more_digits_re s)"
proof (induction s)
  case Nil
  then show ?case by (simp add: more_digits_Nil)
next
  case (Cons c s)
  show ?case
  proof (cases "c \<in> set digit_cls")
    case True
    have "hd_min (rx_match more_digits_re s @ [c # s])"
      using Cons.IH by (rule hd_min_snoc_longer) (auto dest: rx_match_le)
    with True show ?thesis by (simp add: more_digits_digit)
  next
    case False
    have "hd_min (rx_match exp_re (c # s) @ [c # s])"
      using exp_min by (rule hd_min_snoc_longer) (auto dest: exp_shorter)
    with False show ?thesis by (simp add: more_digits_other)
  qed
qed

lemma tail_digit: "c \<in> set digit_cls \<Longrightarrow> rx_match tail_re (c # r) = rx_match more_digits_re r"
  by (simp add: tail_re_def more_digits_re_def)

lemma tail_other: "c \<notin> set digit_cls \<Longrightarrow> rx_match tail_re (c # r) = []"
  by (simp add: tail_re_def)

lemma tail_Nil: "rx_match tail_re [] = []"
  by (simp add: tail_re_def)

lemma tail_min: "hd_min (rx_match tail_re s)"
  by (cases s; cases "hd s \<in> set digit_cls")
    (simp_all add: tail_Nil tail_digit tail_other more_digits_min)

text \<open>The mantissa, by the first character of the text.\<close>

lemma mant_Nil: "rx_match mant_re [] = []"
  by (simp add: mant_re_def tail_Nil)

lemma mant_digit:
  assumes "c \<in> set digit_cls"
  shows "rx_match mant_re (c # r) = rx_match mant_re r @ rx_match more_digits_re r"
proof -
  from assms have "c \<noteq> CHR ''.''"
    using digit_not_special by blast
  then have "rx_match (Seq (Opt (Cls ''.'')) tail_re) (c # r) = rx_match tail_re (c # r)"
    by simp
  with assms show ?thesis
    by (simp add: mant_re_def tail_digit del: rx_match.simps(7))
      (simp add: tail_digit)
qed

lemma mant_point: "rx_match mant_re (CHR ''.'' # r) = rx_match tail_re r"
proof -
  have "CHR ''.'' \<notin> set digit_cls"
    using digit_not_special by blast
  then show ?thesis
    by (simp add: mant_re_def tail_other)
qed

lemma mant_other: "c \<notin> set digit_cls \<Longrightarrow> c \<noteq> CHR ''.'' \<Longrightarrow> rx_match mant_re (c # r) = []"
  by (simp add: mant_re_def tail_other)

lemma mant_min: "hd_min (rx_match mant_re s)"
proof (induction s)
  case Nil
  then show ?case by (simp add: mant_Nil)
next
  case (Cons c r)
  show ?case
  proof (cases "c \<in> set digit_cls")
    case False
    then show ?thesis
      by (cases "c = CHR ''.''") (simp_all add: mant_point mant_other tail_min)
  next
    case digit: True
    show ?thesis
    proof (cases "rx_match mant_re r = []")
      case True
      with digit show ?thesis
        by (simp add: mant_digit more_digits_min)
    next
      case False
      then have "hd (rx_match mant_re r) \<in> set (rx_match mant_re r)"
        by simp
      then have hd_r: "length (hd (rx_match mant_re r)) \<le> length r"
        by (rule rx_match_le)
      have "length (hd (rx_match mant_re r)) \<le> length y"
        if y: "y \<in> set (rx_match more_digits_re r)" for y
      proof (cases r)
        case Nil
        with False show ?thesis by (simp add: mant_Nil)
      next
        case r: (Cons d r')
        show ?thesis
        proof (cases "d \<in> set digit_cls")
          case True
          with y r have "y \<in> set (rx_match mant_re r) \<or> y = r"
            by (auto simp: mant_digit more_digits_digit)
          with Cons.IH hd_r show ?thesis
            by (auto simp: hd_min_def)
        next
          case other: False
          with False r have "d = CHR ''.''"
            using mant_other by blast
          with y r other have "y = r"
            by (simp add: more_digits_other exp_unfold)
          with hd_r show ?thesis by simp
        qed
      qed
      with Cons.IH False have "hd_min (rx_match mant_re r @ rx_match more_digits_re r)"
        by (intro hd_min_append)
      with digit show ?thesis
        by (simp add: mant_digit)
    qed
  qed
qed

lemma sample_unfold:
  "rx_match sample_re s
     = (case s of
          [] \<Rightarrow> []
        | c # r \<Rightarrow> if c = CHR ''-'' \<or> c = CHR ''+'' then rx_match mant_re r
                   else rx_match mant_re s)"
proof (cases s)
  case Nil
  then show ?thesis by (simp add: sample_re_def mant_Nil)
next
  case (Cons c r)
  have "rx_match mant_re (c # r) = []" if "c = CHR ''-'' \<or> c = CHR ''+''"
    using that digit_not_special [of c] by (intro mant_other) auto
  with Cons show ?thesis
    by (auto simp: sample_re_def)
qed

lemma sample_min: "hd_min (rx_match sample_re s)"
  unfolding sample_unfold by (simp add: mant_min split: list.splits)

text \<open>
  So the match the engine takes at a position is at least as long as any literal that
  starts there, and where the engine finds no match no literal starts.
\<close>

lemma first_match_longest:
  assumes "rx_match sample_re s = r # rs" and "numeric_literal w" and "s = w @ r'"
  shows "length r \<le> length r'"
proof -
  from assms(2,3) have "r' \<in> set (rx_match sample_re s)"
    unfolding rx_match_sample_iff by blast
  with sample_min [of s] assms(1) show ?thesis
    by (auto simp: hd_min_def)
qed

lemma no_match_no_literal:
  assumes "rx_match sample_re s = []" and "numeric_literal w"
  shows "\<not> prefix w s"
proof
  assume "prefix w s"
  then obtain r where "s = w @ r" by (auto simp: prefix_def)
  with assms(2) have "r \<in> set (rx_match sample_re s)"
    unfolding rx_match_sample_iff by blast
  with assms(1) show False by simp
qed

lemma first_match_literal:
  assumes "rx_match sample_re s = r # rs"
  shows "numeric_literal (take (length s - length r) s) \<and> s = take (length s - length r) s @ r"
proof -
  from assms have "r \<in> set (rx_match sample_re s)" by simp
  then obtain w where w: "numeric_literal w" "s = w @ r"
    unfolding rx_match_sample_iff by blast
  then have "take (length s - length r) s = w" by simp
  with w show ?thesis by simp
qed

subsection \<open>The scan\<close>

lemma not_literal_Nil: "\<not> numeric_literal []"
  by (simp add: numeric_literal_def)

lemma re_exec_None:
  "re_exec sample_re input = None \<Longrightarrow> input = pre @ w @ post \<Longrightarrow> \<not> numeric_literal w"
proof (induction input arbitrary: pre)
  case Nil
  then show ?case by (simp add: not_literal_Nil)
next
  case (Cons c cs)
  from Cons.prems(1) have none: "rx_match sample_re (c # cs) = []"
    and rest: "re_exec sample_re cs = None"
    by (auto split: list.splits)
  show ?case
  proof (cases pre)
    case Nil
    with Cons.prems(2) have "prefix w (c # cs)" by simp
    with no_match_no_literal [OF none] show ?thesis by blast
  next
    case (Cons p pre')
    with Cons.prems(2) have "cs = pre' @ w @ post" by simp
    from Cons.IH [OF rest this] show ?thesis .
  qed
qed

lemma re_exec_Some:
  assumes "re_exec sample_re input = Some (tok, rest)"
  shows "\<exists>gap. input = gap @ tok @ rest \<and> numeric_literal tok
           \<and> (\<forall>w. numeric_literal w \<and> prefix w (tok @ rest) \<longrightarrow> length w \<le> length tok)
           \<and> (\<forall>g1 g2 w. gap = g1 @ g2 \<and> g2 \<noteq> [] \<and> numeric_literal w
                 \<longrightarrow> \<not> prefix w (g2 @ tok @ rest))"
  using assms
proof (induction input)
  case Nil
  then show ?case by (simp add: sample_unfold)
next
  case (Cons c cs)
  show ?case
  proof (cases "rx_match sample_re (c # cs)")
    case Nil
    with Cons.prems have "re_exec sample_re cs = Some (tok, rest)" by simp
    from Cons.IH [OF this] obtain gap where gap: "cs = gap @ tok @ rest"
      and lit: "numeric_literal tok"
      and longest: "\<forall>w. numeric_literal w \<and> prefix w (tok @ rest) \<longrightarrow> length w \<le> length tok"
      and leftmost: "\<forall>g1 g2 w. gap = g1 @ g2 \<and> g2 \<noteq> [] \<and> numeric_literal w
                 \<longrightarrow> \<not> prefix w (g2 @ tok @ rest)"
      by blast
    have "\<not> prefix w (g2 @ tok @ rest)"
      if "c # gap = g1 @ g2" "g2 \<noteq> []" "numeric_literal w" for g1 g2 w
    proof (cases g1)
      case Nil
      with that(1) gap have "g2 @ tok @ rest = c # cs" by simp
      with no_match_no_literal [OF \<open>rx_match sample_re (c # cs) = []\<close> that(3)]
      show ?thesis by simp
    next
      case (Cons g g1')
      with that(1) have "gap = g1' @ g2" by simp
      with leftmost that(2,3) show ?thesis by blast
    qed
    with gap lit longest have "c # cs = (c # gap) @ tok @ rest \<and> numeric_literal tok
           \<and> (\<forall>w. numeric_literal w \<and> prefix w (tok @ rest) \<longrightarrow> length w \<le> length tok)
           \<and> (\<forall>g1 g2 w. c # gap = g1 @ g2 \<and> g2 \<noteq> [] \<and> numeric_literal w
                 \<longrightarrow> \<not> prefix w (g2 @ tok @ rest))"
      by simp
    then show ?thesis by blast
  next
    case first: (Cons r rs)
    with Cons.prems have tok: "tok = take (length (c # cs) - length r) (c # cs)"
      and rest: "rest = r"
      by auto
    from first_match_literal [OF first] tok rest
    have lit: "numeric_literal tok" and split: "c # cs = tok @ rest"
      by simp_all
    have "length w \<le> length tok" if "numeric_literal w" "prefix w (tok @ rest)" for w
    proof -
      from that(2) split obtain r' where r': "c # cs = w @ r'"
        by (auto simp: prefix_def)
      from first_match_longest [OF first that(1) r'] rest have "length rest \<le> length r'"
        by simp
      moreover from r' split have "length w + length r' = length tok + length rest"
        by (metis length_append)
      ultimately show ?thesis by simp
    qed
    with lit split have "c # cs = [] @ tok @ rest \<and> numeric_literal tok
           \<and> (\<forall>w. numeric_literal w \<and> prefix w (tok @ rest) \<longrightarrow> length w \<le> length tok)
           \<and> (\<forall>g1 g2 w. [] = g1 @ g2 \<and> g2 \<noteq> [] \<and> numeric_literal w
                 \<longrightarrow> \<not> prefix w (g2 @ tok @ rest))"
      by simp
    then show ?thesis by blast
  qed
qed

lemma tokens_leftmost_longest_aux:
  "pf = (\<lambda>m. m) \<Longrightarrow> leftmost_longest input (parseTextToNumbers pf input)"
proof (induction pf input rule: parseTextToNumbers.induct)
  case (1 pf input)
  show ?case
  proof (cases "re_exec sample_re input")
    case None
    then have "parseTextToNumbers pf input = []"
      by (simp add: parseTextToNumbers.simps)
    moreover from None have "leftmost_longest input []"
      by (intro no_literal) (blast dest: re_exec_None)
    ultimately show ?thesis by simp
  next
    case (Some found)
    obtain tok rest where found: "found = (tok, rest)"
      by (cases found)
    with Some "1.prems"
    have toks: "parseTextToNumbers pf input = tok # parseTextToNumbers pf rest"
      by (simp add: parseTextToNumbers.simps [of _ input])
    from "1.IH" [OF Some found [symmetric] "1.prems"]
    have "leftmost_longest rest (parseTextToNumbers pf rest)" .
    moreover from re_exec_Some Some found obtain gap where "input = gap @ tok @ rest"
      "numeric_literal tok"
      "\<forall>w. numeric_literal w \<and> prefix w (tok @ rest) \<longrightarrow> length w \<le> length tok"
      "\<forall>g1 g2 w. gap = g1 @ g2 \<and> g2 \<noteq> [] \<and> numeric_literal w \<longrightarrow> \<not> prefix w (g2 @ tok @ rest)"
      by blast
    ultimately have "leftmost_longest input (tok # parseTextToNumbers pf rest)"
      by (intro next_literal)
    with toks show ?thesis by simp
  qed
qed

lemma tokens_leftmost_longest: "leftmost_longest input (parseTextToNumbers (\<lambda>m. m) input)"
  by (rule tokens_leftmost_longest_aux) (rule refl)

lemma numbers_of_tokens:
  "parseTextToNumbers pf input = map pf (parseTextToNumbers (\<lambda>m. m) input)"
proof (induction pf input rule: parseTextToNumbers.induct)
  case (1 pf input)
  show ?case
  proof (cases "re_exec sample_re input")
    case None
    then show ?thesis by (simp add: parseTextToNumbers.simps)
  next
    case (Some found)
    obtain tok rest where found: "found = (tok, rest)"
      by (cases found)
    with Some "1.IH" show ?thesis
      by (simp add: parseTextToNumbers.simps [of _ input])
  qed
qed

lemma example_tokens: "parseTextToNumbers (\<lambda>m. m) ''-3.5e2 foo 10'' = [''-3.5e2'', ''10'']"
  by (simp add: parseTextToNumbers.simps sample_re_def mant_re_def tail_re_def exp_re_def
      digit_cls_def)

lemma example_no_space:
  "skip_space ''-3.5e2'' = ''-3.5e2''" "skip_space ''10'' = ''10''"
  by (simp_all add: skip_space.simps white_space_def)

lemma example_values:
  "parseFloat_exact ''-3.5e2'' = Some (- 350)" "parseFloat_exact ''10'' = Some 10"
  by (simp_all add: parseFloat_exact_def example_no_space strip_sign_def is_digit_def
      digit_cls_def exponent_value_def digits_value_def)

text \<open>
  C4: for every text, the matches the Sample Extractor takes are the left-to-right,
  maximal-match scan of the text for numeric literals (optional sign, digits, optional
  decimal point, digits, optional exponent), and the samples are the values
  \<open>parseFloat\<close> gives for these matches, in that order.  The text \<open>-3.5e2 foo 10\<close>
  gives the two samples \<open>-350\<close> and \<open>10\<close>.
\<close>

theorem sample_extractor_scan:
  "leftmost_longest input (parseTextToNumbers (\<lambda>m. m) input)
   \<and> parseTextToNumbers pf input = map pf (parseTextToNumbers (\<lambda>m. m) input)
   \<and> parseTextToNumbers parseFloat_exact ''-3.5e2 foo 10'' = [Some (- 350), Some 10]"
proof -
  have "parseTextToNumbers parseFloat_exact ''-3.5e2 foo 10'' = [Some (- 350), Some 10]"
    unfolding numbers_of_tokens [of parseFloat_exact] example_tokens
    by (simp add: example_values)
  then show ?thesis
    using tokens_leftmost_longest numbers_of_tokens by blast
qed

theorem sample_extractor_scan_witness:
  "leftmost_longest ''-3.5e2 foo 10'' [''-3.5e2'', ''10'']
   \<and> numeric_literal ''-3.5e2'' \<and> numeric_literal ''10''
   \<and> parseTextToNumbers parseFloat_exact ''-3.5e2 foo 10''
       = map parseFloat_exact [''-3.5e2'', ''10'']"
proof -
  note t = sample_extractor_scan [of "''-3.5e2 foo 10''" parseFloat_exact]
  from t have scan: "leftmost_longest ''-3.5e2 foo 10'' [''-3.5e2'', ''10'']"
    unfolding example_tokens by blast
  then obtain rest where first: "numeric_literal ''-3.5e2''"
    and more: "leftmost_longest rest [''10'']"
    by (rule leftmost_longest_ConsE)
  from more have second: "numeric_literal ''10''"
    by (rule leftmost_longest_ConsE)
  from t have "parseTextToNumbers parseFloat_exact ''-3.5e2 foo 10''
       = map parseFloat_exact [''-3.5e2'', ''10'']"
    unfolding example_tokens by blast
  with scan first second show ?thesis by blast
qed

end
